theory Spec2Isabelle
  imports Main
begin

section \<open>Errors\<close>

text \<open>
  The two sentinel errors of \<^verbatim>\<open>buffer.go\<close>, the errors made by \<^verbatim>\<open>errors.New\<close> and
  \<^verbatim>\<open>fmt.Errorf\<close> (a message), and \<^verbatim>\<open>errors.Join\<close> of two errors. \<open>Is\<close> is
  \<^verbatim>\<open>errors.Is\<close>: the error itself or one of the errors it joins.
\<close>

datatype error = ErrTimeout | ErrClosed | ErrorString string | Join error error

fun Is :: "error \<Rightarrow> error \<Rightarrow> bool" where
  "Is (Join a b) target = (Join a b = target \<or> Is a target \<or> Is b target)"
| "Is e target = (e = target)"

text \<open>\<^verbatim>\<open>fmt.Errorf\<close> with a format holding one \<^verbatim>\<open>%s\<close> verb and one string argument.\<close>

fun Errorf :: "string \<Rightarrow> string \<Rightarrow> string" where
  "Errorf [] arg = []"
| "Errorf [c] arg = [c]"
| "Errorf (c # d # fmt) arg =
     (if c = CHR ''%'' \<and> d = CHR ''s'' then arg @ fmt else c # Errorf (d # fmt) arg)"

definition invalidSize :: string where
  "invalidSize = ''size cannot be zero''"

definition invalidFlusher :: string where
  "invalidFlusher = ''flusher cannot be nil''"

definition invalidInterval :: string where
  "invalidInterval = ''interval must be greater than zero (%s)''"

definition invalidTimeout :: string where
  "invalidTimeout = ''timeout cannot be negative (%s)''"


section \<open>The buffer and its options\<close>

text \<open>
  A channel of the buffer is unbuffered, so all that the callers and the worker see of it
  is whether it is nil, open or closed.
\<close>

datatype chan = NilChan | OpenChan | ClosedChan

text \<open>
  The struct \<^verbatim>\<open>Buffer[T]\<close>. \<open>'f\<close> is the type of sink references; \<open>None\<close> is the nil
  interface value. \<open>Size\<close> is only compared with zero and used as a length, durations are
  only compared with zero, so both are unbounded numbers here. The embedded
  \<^verbatim>\<open>io.Closer\<close> is never read or written by the code and is left out.
\<close>

record 'f Buffer =
  dataCh :: chan
  flushCh :: chan
  closeCh :: chan
  doneCh :: chan
  Size :: nat
  Flusher :: "'f option"
  FlushInterval :: int
  PushTimeout :: int
  FlushTimeout :: int
  CloseTimeout :: int

definition second :: int where
  "second = 1000000000"

definition WithSize :: "nat \<Rightarrow> 'f Buffer \<Rightarrow> 'f Buffer" where
  "WithSize size' options = options\<lparr>Size := size'\<rparr>"

definition WithFlusher :: "'f option \<Rightarrow> 'f Buffer \<Rightarrow> 'f Buffer" where
  "WithFlusher flusher options = options\<lparr>Flusher := flusher\<rparr>"

definition WithFlushInterval :: "int \<Rightarrow> 'f Buffer \<Rightarrow> 'f Buffer" where
  "WithFlushInterval interval options = options\<lparr>FlushInterval := interval\<rparr>"

definition WithPushTimeout :: "int \<Rightarrow> 'f Buffer \<Rightarrow> 'f Buffer" where
  "WithPushTimeout timeout options = options\<lparr>PushTimeout := timeout\<rparr>"

definition WithFlushTimeout :: "int \<Rightarrow> 'f Buffer \<Rightarrow> 'f Buffer" where
  "WithFlushTimeout timeout options = options\<lparr>FlushTimeout := timeout\<rparr>"

definition WithCloseTimeout :: "int \<Rightarrow> 'f Buffer \<Rightarrow> 'f Buffer" where
  "WithCloseTimeout timeout options = options\<lparr>CloseTimeout := timeout\<rparr>"

text \<open>The option setters of \<^verbatim>\<open>options.go\<close>, as the values a caller can pass to \<open>New\<close>.\<close>

datatype 'f Option =
    OptSize nat
  | OptFlusher "'f option"
  | OptFlushInterval int
  | OptPushTimeout int
  | OptFlushTimeout int
  | OptCloseTimeout int

fun apply_Option :: "'f Option \<Rightarrow> 'f Buffer \<Rightarrow> 'f Buffer" where
  "apply_Option (OptSize n) = WithSize n"
| "apply_Option (OptFlusher f) = WithFlusher f"
| "apply_Option (OptFlushInterval d) = WithFlushInterval d"
| "apply_Option (OptPushTimeout d) = WithPushTimeout d"
| "apply_Option (OptFlushTimeout d) = WithFlushTimeout d"
| "apply_Option (OptCloseTimeout d) = WithCloseTimeout d"

definition New :: "'f Option list \<Rightarrow> 'f Buffer" where
  "New opts =
     foldl (\<lambda>buffer opt. apply_Option opt buffer)
       \<lparr>dataCh = NilChan, flushCh = NilChan, closeCh = NilChan, doneCh = NilChan,
        Size = 0, Flusher = None, FlushInterval = 0,
        PushTimeout = second, FlushTimeout = second, CloseTimeout = second\<rparr>
       opts"

definition validateBuffer :: "'f Buffer \<Rightarrow> error option" where
  "validateBuffer options =
     (if Size options = 0 then Some (ErrorString invalidSize)
      else if Flusher options = None then Some (ErrorString invalidFlusher)
      else if FlushInterval options < 0
        then Some (ErrorString (Errorf invalidInterval ''FlushInterval''))
      else if PushTimeout options < 0
        then Some (ErrorString (Errorf invalidTimeout ''PushTimeout''))
      else if FlushTimeout options < 0
        then Some (ErrorString (Errorf invalidTimeout ''FlushTimeout''))
      else if CloseTimeout options < 0
        then Some (ErrorString (Errorf invalidTimeout ''CloseTimeout''))
      else None)"

definition Validate :: "'f Buffer \<Rightarrow> error option" where
  "Validate b = validateBuffer b"

definition IsIntialized :: "'f Buffer \<Rightarrow> bool" where
  "IsIntialized b = (dataCh b \<noteq> NilChan)"

text \<open>
  \<^verbatim>\<open>closed\<close> polls \<^verbatim>\<open>doneCh\<close> without blocking. Nothing is ever sent on that
  channel, so the receive is ready exactly when the channel is closed; on a nil or an open
  channel the \<^verbatim>\<open>default\<close> case runs.
\<close>

definition closed :: "'f Buffer \<Rightarrow> bool" where
  "closed buffer = (case doneCh buffer of ClosedChan \<Rightarrow> True | _ \<Rightarrow> False)"


section \<open>The rules of validation, one by one\<close>

text \<open>
  The six rules of section 4.1 of the specification, each as a check of its own field,
  with the error the rule reports. \<open>validate_independent\<close> follows the specification's
  words: every rule is checked, whatever the others say.
\<close>

datatype rule = RuleSize | RuleFlusher | RuleInterval | RulePushTimeout
  | RuleFlushTimeout | RuleCloseTimeout

fun violated :: "rule \<Rightarrow> 'f Buffer \<Rightarrow> bool" where
  "violated RuleSize options = (Size options = 0)"
| "violated RuleFlusher options = (Flusher options = None)"
| "violated RuleInterval options = (FlushInterval options < 0)"
| "violated RulePushTimeout options = (PushTimeout options < 0)"
| "violated RuleFlushTimeout options = (FlushTimeout options < 0)"
| "violated RuleCloseTimeout options = (CloseTimeout options < 0)"

fun rule_error :: "rule \<Rightarrow> error" where
  "rule_error RuleSize = ErrorString invalidSize"
| "rule_error RuleFlusher = ErrorString invalidFlusher"
| "rule_error RuleInterval = ErrorString (Errorf invalidInterval ''FlushInterval'')"
| "rule_error RulePushTimeout = ErrorString (Errorf invalidTimeout ''PushTimeout'')"
| "rule_error RuleFlushTimeout = ErrorString (Errorf invalidTimeout ''FlushTimeout'')"
| "rule_error RuleCloseTimeout = ErrorString (Errorf invalidTimeout ''CloseTimeout'')"

definition rules :: "rule list" where
  "rules = [RuleSize, RuleFlusher, RuleInterval, RulePushTimeout, RuleFlushTimeout,
     RuleCloseTimeout]"

definition validate_independent :: "'f Buffer \<Rightarrow> error list" where
  "validate_independent options = map rule_error (filter (\<lambda>r. violated r options) rules)"

definition first_violation :: "'f Buffer \<Rightarrow> error option" where
  "first_violation options =
     (case validate_independent options of [] \<Rightarrow> None | e # _ \<Rightarrow> Some e)"


section \<open>The coordination loop\<close>

text \<open>
  What the worker does to the outside world, in the order it does it: a call of the sink's
  \<^verbatim>\<open>Write\<close> with a batch, the creation of a ticker (numbered in order of creation) with
  its period, the stop of a ticker, and the close of \<^verbatim>\<open>doneCh\<close>.
\<close>

datatype 'a effect = Write "'a list" | TickerNew nat int | TickerStop nat | CloseDone

text \<open>
  What ends the worker other than the end of its loop: a run-time panic of Go, or a
  \<^verbatim>\<open>select\<close> case that can never be taken (a receive from a nil channel).
\<close>

datatype fault = PanicIndexOutOfRange | PanicSliceBounds | PanicNilFlusher
  | PanicNonPositiveInterval | PanicCloseOfChannel | PanicSendOnClosed | NeverReady

text \<open>
  The local variables of \<^verbatim>\<open>consume\<close>. \<open>ticker\<close> is the ticker's channel (\<open>None\<close>
  is nil), \<open>stopTicker\<close> the function that stops it (\<open>None\<close> is the function that does
  nothing). \<open>made\<close> counts the tickers created so far and \<open>trace\<close> records the effects;
  the code has neither, they are what an observer of the worker would write down.
\<close>

record 'a loop =
  count :: nat
  items :: "'a list"
  mustFlush :: bool
  ticker :: "nat option"
  stopTicker :: "nat option"
  isOpen :: bool
  made :: nat
  trace :: "'a effect list"

text \<open>
  \<^verbatim>\<open>newTicker\<close>: the channel, the stop function, the effects and the new count of
  tickers. \<^verbatim>\<open>time.NewTicker\<close> panics on a duration that is not positive.
\<close>

definition newTicker ::
  "int \<Rightarrow> nat \<Rightarrow> fault + (nat option \<times> nat option \<times> 'a effect list \<times> nat)" where
  "newTicker interval n =
     (if interval = 0 then Inr (None, None, [], n)
      else if interval < 0 then Inl PanicNonPositiveInterval
      else Inr (Some n, Some n, [TickerNew n interval], Suc n))"

definition call_stop :: "nat option \<Rightarrow> 'a effect list" where
  "call_stop s = (case s of None \<Rightarrow> [] | Some k \<Rightarrow> [TickerStop k])"

text \<open>
  The lines of \<^verbatim>\<open>consume\<close> before the loop. \<open>z\<close> is the zero value of \<^verbatim>\<open>T\<close>, with
  which \<^verbatim>\<open>make\<close> fills the slice. The allocation itself is taken to succeed: a
  \<open>Size\<close> too large for memory is outside this model.
\<close>

definition consume_start :: "'a \<Rightarrow> 'f Buffer \<Rightarrow> fault + 'a loop" where
  "consume_start z buffer =
     (case newTicker (FlushInterval buffer) 0 of
        Inl f \<Rightarrow> Inl f
      | Inr (t, s, es, n) \<Rightarrow>
          Inr \<lparr>count = 0, items = replicate (Size buffer) z, mustFlush = False,
               ticker = t, stopTicker = s, isOpen = True, made = n, trace = es\<rparr>)"

datatype 'a event = Item 'a | Tick | FlushReq | CloseReq

text \<open>The \<^verbatim>\<open>select\<close> statement of the loop, for the case that the event takes.\<close>

fun select_case :: "'a loop \<Rightarrow> 'a event \<Rightarrow> fault + 'a loop" where
  "select_case st (Item item) =
     (if count st < length (items st)
      then Inr (st\<lparr>items := (items st)[count st := item],
                   count := count st + 1,
                   mustFlush := (count st + 1 \<ge> length (items st))\<rparr>)
      else Inl PanicIndexOutOfRange)"
| "select_case st Tick =
     (case ticker st of
        None \<Rightarrow> Inl NeverReady
      | Some k \<Rightarrow> Inr (st\<lparr>mustFlush := (count st > 0)\<rparr>))"
| "select_case st FlushReq = Inr (st\<lparr>mustFlush := (count st > 0)\<rparr>)"
| "select_case st CloseReq = Inr (st\<lparr>isOpen := False, mustFlush := (count st > 0)\<rparr>)"

text \<open>
  The body of \<^verbatim>\<open>if mustFlush\<close>, in two halves: up to the call of \<^verbatim>\<open>Write\<close>, and from
  its return on.
\<close>

definition flush_call :: "'f Buffer \<Rightarrow> 'a loop \<Rightarrow> fault + 'a loop" where
  "flush_call buffer st =
     (if count st > length (items st) then Inl PanicSliceBounds
      else case Flusher buffer of
        None \<Rightarrow> Inl PanicNilFlusher
      | Some w \<Rightarrow>
          Inr (st\<lparr>trace := trace st @ call_stop (stopTicker st)
                     @ [Write (take (count st) (items st))]\<rparr>))"

definition flush_return :: "'a \<Rightarrow> 'f Buffer \<Rightarrow> 'a loop \<Rightarrow> fault + 'a loop" where
  "flush_return z buffer st =
     (case newTicker (FlushInterval buffer) (made st) of
        Inl f \<Rightarrow> Inl f
      | Inr (t, s, es, n) \<Rightarrow>
          Inr (st\<lparr>count := 0, items := replicate (Size buffer) z, mustFlush := False,
                  ticker := t, stopTicker := s, made := n, trace := trace st @ es\<rparr>))"

definition flush :: "'a \<Rightarrow> 'f Buffer \<Rightarrow> 'a loop \<Rightarrow> fault + 'a loop" where
  "flush z buffer st =
     (case flush_call buffer st of Inl f \<Rightarrow> Inl f | Inr st' \<Rightarrow> flush_return z buffer st')"

text \<open>One turn of the loop: the \<^verbatim>\<open>select\<close>, then the flush when \<open>mustFlush\<close> is set.\<close>

definition iteration :: "'a \<Rightarrow> 'f Buffer \<Rightarrow> 'a loop \<Rightarrow> 'a event \<Rightarrow> fault + 'a loop" where
  "iteration z buffer st ev =
     (case select_case st ev of
        Inl f \<Rightarrow> Inl f
      | Inr st' \<Rightarrow> if mustFlush st' then flush z buffer st' else Inr st')"

text \<open>
  The loop \<^verbatim>\<open>for isOpen\<close> on the events the worker receives, in the order it receives
  them. When the events run out the worker is waiting in its \<^verbatim>\<open>select\<close>; once
  \<open>isOpen\<close> is false the loop is over and no event is received any more.
\<close>

fun run :: "'a \<Rightarrow> 'f Buffer \<Rightarrow> 'a loop \<Rightarrow> 'a event list \<Rightarrow> fault + 'a loop" where
  "run z buffer st [] = Inr st"
| "run z buffer st (ev # evs) =
     (if isOpen st
      then (case iteration z buffer st ev of
              Inl f \<Rightarrow> Inl f
            | Inr st' \<Rightarrow> run z buffer st' evs)
      else Inr st)"

text \<open>The two lines after the loop: \<^verbatim>\<open>stopTicker()\<close> and \<^verbatim>\<open>close(buffer.doneCh)\<close>.\<close>

definition consume_exit :: "'a loop \<Rightarrow> 'a loop" where
  "consume_exit st = st\<lparr>trace := trace st @ call_stop (stopTicker st) @ [CloseDone]\<rparr>"

definition consume :: "'a \<Rightarrow> 'f Buffer \<Rightarrow> 'a event list \<Rightarrow> fault + 'a loop" where
  "consume z buffer evs =
     (case consume_start z buffer of
        Inl f \<Rightarrow> Inl f
      | Inr st0 \<Rightarrow>
          (case run z buffer st0 evs of
             Inl f \<Rightarrow> Inl f
           | Inr st \<Rightarrow> Inr (if isOpen st then st else consume_exit st)))"

text \<open>The batches handed to the sink, and the items received, in order.\<close>

fun writes :: "'a effect list \<Rightarrow> 'a list list" where
  "writes [] = []"
| "writes (Write b # es) = b # writes es"
| "writes (e # es) = writes es"

fun received :: "'a event list \<Rightarrow> 'a list" where
  "received [] = []"
| "received (Item x # evs) = x # received evs"
| "received (CloseReq # evs) = []"
| "received (e # evs) = received evs"

text \<open>The pending batch: the first \<open>count\<close> places of \<open>items\<close>.\<close>

definition pending :: "'a loop \<Rightarrow> 'a list" where
  "pending st = take (count st) (items st)"


section \<open>The buffer with its worker\<close>

text \<open>
  The worker goroutine is waiting in its \<^verbatim>\<open>select\<close>, or inside the sink's
  \<^verbatim>\<open>Write\<close> (called, not yet returned), or has left \<^verbatim>\<open>consume\<close>, or has stopped on
  a fault. A buffer that was never initialised has no worker.
\<close>

datatype 'a goroutine = Selecting "'a loop" | Writing "'a loop" | Exited "'a loop"
  | Crashed fault

record ('a, 'f) system =
  buf :: "'f Buffer"
  worker :: "'a goroutine option"

definition selecting :: "('a, 'f) system \<Rightarrow> bool" where
  "selecting s = (case worker s of Some (Selecting st) \<Rightarrow> True | _ \<Rightarrow> False)"

definition close_chan :: "chan \<Rightarrow> fault + chan" where
  "close_chan c = (case c of OpenChan \<Rightarrow> Inr ClosedChan | _ \<Rightarrow> Inl PanicCloseOfChannel)"

text \<open>
  The worker at the test of \<^verbatim>\<open>for isOpen\<close>: it goes back to its \<^verbatim>\<open>select\<close>, or
  leaves the loop, stops the ticker and closes \<^verbatim>\<open>doneCh\<close>.
\<close>

definition resume :: "('a, 'f) system \<Rightarrow> 'a loop \<Rightarrow> ('a, 'f) system" where
  "resume s st =
     (if isOpen st then s\<lparr>worker := Some (Selecting st)\<rparr>
      else case close_chan (doneCh (buf s)) of
        Inl f \<Rightarrow> s\<lparr>worker := Some (Crashed f)\<rparr>
      | Inr c \<Rightarrow> s\<lparr>buf := (buf s)\<lparr>doneCh := c\<rparr>, worker := Some (Exited (consume_exit st))\<rparr>)"

text \<open>
  The worker takes an event in its \<^verbatim>\<open>select\<close> and runs until it next blocks: in the
  sink's \<^verbatim>\<open>Write\<close> when it must flush, in its \<^verbatim>\<open>select\<close> otherwise, unless it leaves.
\<close>

definition worker_receives :: "('a, 'f) system \<Rightarrow> 'a event \<Rightarrow> ('a, 'f) system" where
  "worker_receives s ev =
     (case worker s of
        Some (Selecting st) \<Rightarrow>
          (case select_case st ev of
             Inl f \<Rightarrow> s\<lparr>worker := Some (Crashed f)\<rparr>
           | Inr st1 \<Rightarrow>
               if mustFlush st1
               then (case flush_call (buf s) st1 of
                       Inl f \<Rightarrow> s\<lparr>worker := Some (Crashed f)\<rparr>
                     | Inr st2 \<Rightarrow> s\<lparr>worker := Some (Writing st2)\<rparr>)
               else resume s st1)
      | _ \<Rightarrow> s)"

text \<open>The sink's \<^verbatim>\<open>Write\<close> returns and the worker runs until it next blocks.\<close>

definition sink_returns :: "'a \<Rightarrow> ('a, 'f) system \<Rightarrow> ('a, 'f) system" where
  "sink_returns z s =
     (case worker s of
        Some (Writing st2) \<Rightarrow>
          (case flush_return z (buf s) st2 of
             Inl f \<Rightarrow> s\<lparr>worker := Some (Crashed f)\<rparr>
           | Inr st3 \<Rightarrow> resume s st3)
      | _ \<Rightarrow> s)"

definition initialize :: "'a \<Rightarrow> ('a, 'f) system \<Rightarrow> error + ('a, 'f) system" where
  "initialize z s =
     (case validateBuffer (buf s) of
        Some err \<Rightarrow> Inl err
      | None \<Rightarrow>
          Inr \<lparr>buf = (buf s)\<lparr>dataCh := OpenChan, flushCh := OpenChan, closeCh := OpenChan,
                    doneCh := OpenChan\<rparr>,
               worker = Some (case consume_start z (buf s) of
                                Inl f \<Rightarrow> Crashed f
                              | Inr st \<Rightarrow> Selecting st)\<rparr>)"


section \<open>The public operations\<close>

text \<open>
  Each public operation blocks in \<^verbatim>\<open>select\<close> statements that race a channel operation
  against \<^verbatim>\<open>time.After\<close>. Which one wins is not decided by the code: it is the
  schedule, an argument of the model. \<open>Handoff\<close> lets the channel operation win where it
  can be taken at all, \<open>Expire\<close> lets the timer win. A send on an open channel can be
  taken when the worker waits in its \<^verbatim>\<open>select\<close>; a send on a nil channel never; a send
  on a closed channel panics.

  A call returns its result (or panics) together with the list of the waits it went
  through: a wait that ended with the send or the receive, or one that lasted the whole
  timeout.
\<close>

datatype sched = Handoff | Expire

datatype sent = Accepted | Expired | SendPanics

datatype wait = Sent | Received | TimedOut int

datatype outcome = Returned "error option" | Panicked fault

definition try_send :: "('a, 'f) system \<Rightarrow> chan \<Rightarrow> sched \<Rightarrow> sent" where
  "try_send s ch sch =
     (case ch of
        NilChan \<Rightarrow> Expired
      | ClosedChan \<Rightarrow> (if sch = Handoff then SendPanics else Expired)
      | OpenChan \<Rightarrow> (if sch = Handoff \<and> selecting s then Accepted else Expired))"

definition Push ::
  "'a \<Rightarrow> ('a, 'f) system \<Rightarrow> 'a \<Rightarrow> sched \<Rightarrow> outcome \<times> wait list \<times> ('a, 'f) system" where
  "Push z s item sch =
     (case (if \<not> IsIntialized (buf s)
            then (case Validate (buf s) of
                    Some err \<Rightarrow> Inl err
                  | None \<Rightarrow> initialize z s)
            else Inr s) of
        Inl err \<Rightarrow> (Returned (Some err), [], s)
      | Inr s1 \<Rightarrow>
          if closed (buf s1) then (Returned (Some ErrClosed), [], s1)
          else (case try_send s1 (dataCh (buf s1)) sch of
                  Accepted \<Rightarrow> (Returned None, [Sent], worker_receives s1 (Item item))
                | Expired \<Rightarrow>
                    (Returned (Some (Join (ErrorString ''buffer is full'') ErrTimeout)),
                     [TimedOut (PushTimeout (buf s1))], s1)
                | SendPanics \<Rightarrow> (Panicked PanicSendOnClosed, [], s1)))"

definition Flush ::
  "('a, 'f) system \<Rightarrow> sched \<Rightarrow> outcome \<times> wait list \<times> ('a, 'f) system" where
  "Flush s sch =
     (if closed (buf s) then (Returned (Some ErrClosed), [], s)
      else (case try_send s (flushCh (buf s)) sch of
              Accepted \<Rightarrow> (Returned None, [Sent], worker_receives s FlushReq)
            | Expired \<Rightarrow>
                (Returned (Some (Join
                   (ErrorString ''failed to flush buffer within flush timeout'') ErrTimeout)),
                 [TimedOut (FlushTimeout (buf s))], s)
            | SendPanics \<Rightarrow> (Panicked PanicSendOnClosed, [], s)))"

text \<open>The three \<^verbatim>\<open>close\<close> calls of \<^verbatim>\<open>Close\<close>, in their order.\<close>

definition close_channels :: "'f Buffer \<Rightarrow> fault + 'f Buffer" where
  "close_channels b =
     (case close_chan (dataCh b) of
        Inl f \<Rightarrow> Inl f
      | Inr c1 \<Rightarrow>
          (case close_chan (flushCh b) of
             Inl f \<Rightarrow> Inl f
           | Inr c2 \<Rightarrow>
               (case close_chan (closeCh b) of
                  Inl f \<Rightarrow> Inl f
                | Inr c3 \<Rightarrow> Inr (b\<lparr>dataCh := c1, flushCh := c2, closeCh := c3\<rparr>))))"

text \<open>
  The second \<^verbatim>\<open>select\<close> of \<^verbatim>\<open>Close\<close>: the receive from \<^verbatim>\<open>doneCh\<close> can be taken
  once the worker has closed it. Under \<open>Handoff\<close> a sink that is still writing returns
  within the timeout; under \<open>Expire\<close> the timer wins.
\<close>

definition await_done ::
  "'a \<Rightarrow> ('a, 'f) system \<Rightarrow> sched \<Rightarrow> outcome \<times> wait list \<times> ('a, 'f) system" where
  "await_done z s sch =
     (let timeout = (Returned (Some (Join
            (ErrorString ''failed to close buffer within close timeout'') ErrTimeout)),
            [TimedOut (CloseTimeout (buf s))])
      in case sch of
           Expire \<Rightarrow> (fst timeout, snd timeout, s)
         | Handoff \<Rightarrow>
             (let s' = sink_returns z s
              in if closed (buf s')
                 then (case close_channels (buf s') of
                         Inl f \<Rightarrow> (Panicked f, [Received], s')
                       | Inr b \<Rightarrow> (Returned None, [Received], s'\<lparr>buf := b\<rparr>))
                 else (fst timeout, snd timeout, s')))"

definition Close ::
  "'a \<Rightarrow> ('a, 'f) system \<Rightarrow> sched \<Rightarrow> sched \<Rightarrow> outcome \<times> wait list \<times> ('a, 'f) system" where
  "Close z s sch1 sch2 =
     (if closed (buf s) then (Returned (Some ErrClosed), [], s)
      else (case try_send s (closeCh (buf s)) sch1 of
              Accepted \<Rightarrow>
                (case await_done z (worker_receives s CloseReq) sch2 of
                   (r, ws, s') \<Rightarrow> (r, Sent # ws, s'))
            | Expired \<Rightarrow>
                (Returned (Some (Join
                   (ErrorString ''failed to close buffer within close timeout'') ErrTimeout)),
                 [TimedOut (CloseTimeout (buf s))], s)
            | SendPanics \<Rightarrow> (Panicked PanicSendOnClosed, [], s)))"

text \<open>A buffer as \<open>New\<close> returns it, before any call: no worker yet.\<close>

definition fresh :: "'f Option list \<Rightarrow> ('a, 'f) system" where
  "fresh opts = \<lparr>buf = New opts, worker = None\<rparr>"

text \<open>The effects of the worker so far, whatever it is doing.\<close>

definition effects :: "('a, 'f) system \<Rightarrow> 'a effect list" where
  "effects s =
     (case worker s of
        Some (Selecting st) \<Rightarrow> trace st
      | Some (Writing st) \<Rightarrow> trace st
      | Some (Exited st) \<Rightarrow> trace st
      | _ \<Rightarrow> [])"


section \<open>Invariant of the loop\<close>

text \<open>
  What holds of the local variables each time the worker is about to \<^verbatim>\<open>select\<close>: the
  slice has the configured length, the batch is not full, \<open>mustFlush\<close> is reset, and the
  ticker is the last one made, or nil when no interval is configured.
\<close>

definition loop_inv :: "'f Buffer \<Rightarrow> 'a loop \<Rightarrow> bool" where
  "loop_inv buffer st =
     (length (items st) = Size buffer \<and> count st < Size buffer \<and> \<not> mustFlush st
      \<and> stopTicker st = ticker st
      \<and> (case ticker st of
            None \<Rightarrow> FlushInterval buffer = 0
          | Some k \<Rightarrow> FlushInterval buffer \<noteq> 0 \<and> made st = Suc k))"

text \<open>
  The events a worker can receive: a tick needs a ticker, so an interval other than zero.
\<close>

definition receivable :: "'f Buffer \<Rightarrow> 'a event list \<Rightarrow> bool" where
  "receivable buffer evs = (FlushInterval buffer \<noteq> 0 \<or> Tick \<notin> set evs)"

text \<open>A batch of at least one and at most \<open>Size\<close> items.\<close>

definition sized :: "'f Buffer \<Rightarrow> 'a list \<Rightarrow> bool" where
  "sized buffer batch = (1 \<le> length batch \<and> length batch \<le> Size buffer)"


section \<open>Two configurations\<close>

text \<open>A buffer of two places, without and with a flush interval.\<close>

definition buffer2 :: "unit Buffer" where
  "buffer2 = New [OptSize 2, OptFlusher (Some ())]"

definition buffer2_ticking :: "unit Buffer" where
  "buffer2_ticking = New [OptSize 2, OptFlusher (Some ()), OptFlushInterval 5]"

section \<open>Predicates on outcomes and on the buffer with its worker\<close>

text \<open>The outcome of validation reports a rule when it is that rule's error.\<close>

definition reports :: "error option \<Rightarrow> rule \<Rightarrow> bool" where
  "reports out r = (out = Some (rule_error r))"

text \<open>
  An initialised, validated buffer, not closed, whose worker waits in its \<^verbatim>\<open>select\<close> with
  the local variables \<open>st\<close>; and such a buffer whose worker is inside the sink's
  \<^verbatim>\<open>Write\<close>.
\<close>

definition waiting :: "('a, 'f) system \<Rightarrow> 'a loop \<Rightarrow> bool" where
  "waiting s st =
     (validateBuffer (buf s) = None \<and> dataCh (buf s) = OpenChan \<and> flushCh (buf s) = OpenChan
      \<and> closeCh (buf s) = OpenChan \<and> doneCh (buf s) = OpenChan
      \<and> worker s = Some (Selecting st) \<and> loop_inv (buf s) st \<and> isOpen st)"

definition writing :: "('a, 'f) system \<Rightarrow> 'a loop \<Rightarrow> bool" where
  "writing s st =
     (validateBuffer (buf s) = None \<and> dataCh (buf s) = OpenChan \<and> flushCh (buf s) = OpenChan
      \<and> closeCh (buf s) = OpenChan \<and> doneCh (buf s) = OpenChan
      \<and> worker s = Some (Writing st) \<and> isOpen st)"

text \<open>
  The same with nothing said of \<open>isOpen\<close>: the worker is inside \<^verbatim>\<open>Write\<close>, in an
  ordinary flush or in the last flush after a close request.
\<close>

definition in_sink :: "('a, 'f) system \<Rightarrow> 'a loop \<Rightarrow> bool" where
  "in_sink s st =
     (validateBuffer (buf s) = None \<and> dataCh (buf s) = OpenChan \<and> flushCh (buf s) = OpenChan
      \<and> closeCh (buf s) = OpenChan \<and> doneCh (buf s) = OpenChan
      \<and> worker s = Some (Writing st))"

text \<open>
  A run: one item pushed on a new buffer of two places; then a \<^verbatim>\<open>Close\<close> whose request
  the worker takes but whose second wait times out, the sink still writing; then the sink
  returns.
\<close>

definition pushed_one :: "(nat, unit) system" where
  "pushed_one = snd (snd (Push 0 (fresh [OptSize 2, OptFlusher (Some ())]) 1 Handoff))"

definition close_stalled :: "(nat, unit) system" where
  "close_stalled = snd (snd (Close 0 pushed_one Handoff Expire))"

definition sink_done :: "(nat, unit) system" where
  "sink_done = sink_returns 0 close_stalled"

text \<open>A second item pushed after the first: the batch is full and the worker is in the sink.\<close>

definition pushed_full :: "(nat, unit) system" where
  "pushed_full = snd (snd (Push 0 pushed_one 2 Handoff))"

text \<open>
  Calls of \<open>Push\<close> one after the other, each handed to the worker where that is
  possible: the results, in order, and the buffer after the last call.
\<close>

fun push_all :: "'a \<Rightarrow> ('a, 'f) system \<Rightarrow> 'a list \<Rightarrow> outcome list \<times> ('a, 'f) system" where
  "push_all z s [] = ([], s)"
| "push_all z s (x # xs) =
     (case Push z s x Handoff of
        (r, ws, s') \<Rightarrow> (case push_all z s' xs of (rs, s'') \<Rightarrow> (r # rs, s'')))"


section \<open>Properties of the loop\<close>

lemma valid_iff:
  "validateBuffer b = None \<longleftrightarrow>
     (0 < Size b \<and> Flusher b \<noteq> None \<and> 0 \<le> FlushInterval b \<and> 0 \<le> PushTimeout b
      \<and> 0 \<le> FlushTimeout b \<and> 0 \<le> CloseTimeout b)"
  by (auto simp: validateBuffer_def)

lemma newTicker_valid:
  "0 \<le> d \<Longrightarrow>
   newTicker d n = Inr (if d = 0 then (None, None, [], n) else (Some n, Some n, [TickerNew n d], Suc n))"
  by (simp add: newTicker_def)

lemma consume_start_ok:
  assumes "validateBuffer b = None"
  shows "\<exists>st. consume_start z b = Inr st \<and> loop_inv b st \<and> isOpen st \<and> count st = 0
           \<and> writes (trace st) = []"
  using assms
  by (auto simp: valid_iff consume_start_def newTicker_valid loop_inv_def)

lemma writes_append: "writes (xs @ ys) = writes xs @ writes ys"
  by (induction xs rule: writes.induct) auto

lemma writes_call_stop: "writes (call_stop s) = []"
  by (simp add: call_stop_def split: option.splits)

lemma flush_ok:
  assumes "validateBuffer b = None" "count st \<le> length (items st)"
  shows "flush z b st =
     Inr (st\<lparr>count := 0, items := replicate (Size b) z, mustFlush := False,
            ticker := (if FlushInterval b = 0 then None else Some (made st)),
            stopTicker := (if FlushInterval b = 0 then None else Some (made st)),
            made := (if FlushInterval b = 0 then made st else Suc (made st)),
            trace := trace st @ call_stop (stopTicker st) @ [Write (take (count st) (items st))]
               @ (if FlushInterval b = 0 then [] else [TickerNew (made st) (FlushInterval b)])\<rparr>)"
  using assms
  by (auto simp: valid_iff flush_def flush_call_def flush_return_def newTicker_valid)

lemma upd_same: "\<not> mustFlush st \<Longrightarrow> st\<lparr>mustFlush := False\<rparr> = st"
  by simp

lemma select_case_ok:
  assumes "loop_inv b st" "receivable b [ev]"
  shows "\<exists>st1. select_case st ev = Inr st1 \<and> count st1 \<le> length (items st1)
           \<and> length (items st1) = Size b
           \<and> mustFlush st1 = (case ev of Item x \<Rightarrow> Suc (count st) = Size b | _ \<Rightarrow> 0 < count st)
           \<and> (mustFlush st1 \<longrightarrow> 0 < count st1)
           \<and> (\<not> mustFlush st1 \<longrightarrow> loop_inv b st1)
           \<and> isOpen st1 = (isOpen st \<and> ev \<noteq> CloseReq)
           \<and> pending st1 = pending st @ (case ev of Item x \<Rightarrow> [x] | _ \<Rightarrow> [])
           \<and> trace st1 = trace st \<and> stopTicker st1 = stopTicker st
           \<and> ticker st1 = ticker st \<and> made st1 = made st"
  using assms
  by (cases ev)
     (auto simp: loop_inv_def receivable_def pending_def take_Suc_conv_app_nth
           split: option.splits)

lemma flushed_inv:
  assumes "validateBuffer b = None" "count st \<le> length (items st)"
  shows "\<exists>st'. flush z b st = Inr st' \<and> loop_inv b st' \<and> count st' = 0
           \<and> items st' = replicate (Size b) z \<and> isOpen st' = isOpen st
           \<and> writes (trace st') = writes (trace st) @ [pending st]
           \<and> pending st' = []"
  using assms
  by (auto simp: flush_ok loop_inv_def valid_iff writes_append writes_call_stop pending_def)

lemma iteration_ok:
  assumes "validateBuffer b = None" "loop_inv b st" "receivable b [ev]"
  shows "\<exists>st'. iteration z b st ev = Inr st' \<and> loop_inv b st'
           \<and> isOpen st' = (isOpen st \<and> ev \<noteq> CloseReq)
           \<and> concat (writes (trace st')) @ pending st'
               = concat (writes (trace st)) @ pending st @ (case ev of Item x \<Rightarrow> [x] | _ \<Rightarrow> [])
           \<and> (\<exists>bs. writes (trace st') = writes (trace st) @ bs \<and> (\<forall>x \<in> set bs. sized b x))
           \<and> (ev = CloseReq \<longrightarrow> count st' = 0)"
proof -
  from select_case_ok[OF assms(2,3)] obtain st1 where
    s: "select_case st ev = Inr st1" "count st1 \<le> length (items st1)"
       "length (items st1) = Size b" "mustFlush st1 \<longrightarrow> 0 < count st1"
       "\<not> mustFlush st1 \<longrightarrow> loop_inv b st1" "isOpen st1 = (isOpen st \<and> ev \<noteq> CloseReq)"
       "pending st1 = pending st @ (case ev of Item x \<Rightarrow> [x] | _ \<Rightarrow> [])"
       "trace st1 = trace st"
       "mustFlush st1 = (case ev of Item x \<Rightarrow> Suc (count st) = Size b | _ \<Rightarrow> 0 < count st)"
    by blast
  show ?thesis
  proof (cases "mustFlush st1")
    case True
    from flushed_inv[OF assms(1) s(2), of z] obtain st' where
      f: "flush z b st1 = Inr st'" "loop_inv b st'" "count st' = 0" "isOpen st' = isOpen st1"
         "writes (trace st') = writes (trace st1) @ [pending st1]" "pending st' = []"
      by blast
    have "sized b (pending st1)"
      using True s(2,3,4) by (simp add: sized_def pending_def)
    with True s f show ?thesis
      by (simp add: iteration_def)
  next
    case False
    have "ev = CloseReq \<longrightarrow> count st = 0"
      using False s(9) by (cases ev) auto
    moreover have "ev = CloseReq \<longrightarrow> count st1 = count st"
      using s(1) by (cases ev) auto
    ultimately show ?thesis using False s
      by (simp add: iteration_def)
  qed
qed

lemma run_append:
  "run z b st (as @ bs) = (case run z b st as of Inl f \<Rightarrow> Inl f | Inr st' \<Rightarrow> run z b st' bs)"
proof (induction as arbitrary: st)
  case Nil
  show ?case by simp
next
  case (Cons a as)
  show ?case
  proof (cases "isOpen st")
    case True
    then show ?thesis using Cons by (simp split: sum.splits)
  next
    case False
    then show ?thesis by (cases bs) simp_all
  qed
qed

lemma run_closed: "\<not> isOpen st \<Longrightarrow> run z b st evs = Inr st"
  by (cases evs) simp_all

lemma receivable_Cons: "receivable b (ev # evs) \<Longrightarrow> receivable b [ev] \<and> receivable b evs"
  by (auto simp: receivable_def)

lemma run_ok:
  assumes "validateBuffer b = None" "loop_inv b st" "receivable b evs" "isOpen st"
  shows "\<exists>st'. run z b st evs = Inr st' \<and> loop_inv b st'
           \<and> isOpen st' = (CloseReq \<notin> set evs)
           \<and> concat (writes (trace st')) @ pending st'
               = concat (writes (trace st)) @ pending st @ received evs
           \<and> (\<exists>bs. writes (trace st') = writes (trace st) @ bs \<and> (\<forall>x \<in> set bs. sized b x))
           \<and> (\<not> isOpen st' \<longrightarrow> count st' = 0)"
  using assms(2,3,4)
proof (induction evs arbitrary: st)
  case Nil
  then show ?case by simp
next
  case (Cons ev evs)
  from receivable_Cons[OF Cons.prems(2)] have r: "receivable b [ev]" "receivable b evs"
    by simp_all
  from iteration_ok[OF assms(1) Cons.prems(1) r(1), of z] obtain st1 bs1 where
    i: "iteration z b st ev = Inr st1" "loop_inv b st1"
       "isOpen st1 = (isOpen st \<and> ev \<noteq> CloseReq)"
       "concat (writes (trace st1)) @ pending st1
          = concat (writes (trace st)) @ pending st @ (case ev of Item x \<Rightarrow> [x] | _ \<Rightarrow> [])"
       "writes (trace st1) = writes (trace st) @ bs1" "\<forall>x \<in> set bs1. sized b x"
       "ev = CloseReq \<longrightarrow> count st1 = 0"
    by blast
  show ?case
  proof (cases "ev = CloseReq")
    case True
    then have "\<not> isOpen st1" using i(3) by simp
    then have "run z b st1 evs = Inr st1" by (rule run_closed)
    with True i Cons.prems(3) show ?thesis by auto
  next
    case False
    then have o: "isOpen st1" using i(3) Cons.prems(3) by simp
    from Cons.IH[OF i(2) r(2) o] obtain st' bs where
      h: "run z b st1 evs = Inr st'" "loop_inv b st'" "isOpen st' = (CloseReq \<notin> set evs)"
         "concat (writes (trace st')) @ pending st'
            = concat (writes (trace st1)) @ pending st1 @ received evs"
         "writes (trace st') = writes (trace st1) @ bs" "\<forall>x \<in> set bs. sized b x"
         "\<not> isOpen st' \<longrightarrow> count st' = 0"
      by blast
    have rec: "received (ev # evs) = (case ev of Item x \<Rightarrow> [x] | _ \<Rightarrow> []) @ received evs"
      using False by (cases ev) simp_all
    have c: "concat (writes (trace st')) @ pending st'
            = concat (writes (trace st)) @ pending st @ received (ev # evs)"
      using h(4) i(4) rec
      by (metis append.assoc)
    have w: "writes (trace st') = writes (trace st) @ (bs1 @ bs)" using h(5) i(5) by simp
    have "\<forall>x \<in> set (bs1 @ bs). sized b x" using h(6) i(6) by auto
    with w have "\<exists>bs. writes (trace st') = writes (trace st) @ bs \<and> (\<forall>x \<in> set bs. sized b x)"
      by blast
    with h(1,2,3,7) c i(1) Cons.prems(3) False show ?thesis by simp
  qed
qed

lemma consume_ok:
  assumes "validateBuffer b = None" "receivable b evs"
  shows "\<exists>st. consume z b evs = Inr st \<and> loop_inv b st
           \<and> isOpen st = (CloseReq \<notin> set evs)
           \<and> concat (writes (trace st)) @ pending st = received evs
           \<and> (\<forall>x \<in> set (writes (trace st)). sized b x)
           \<and> (\<not> isOpen st \<longrightarrow> count st = 0)"
proof -
  from consume_start_ok[OF assms(1), of z] obtain st0 where
    s: "consume_start z b = Inr st0" "loop_inv b st0" "isOpen st0" "count st0 = 0"
       "writes (trace st0) = []"
    by blast
  from run_ok[OF assms(1) s(2) assms(2) s(3), of z] obtain st bs where
    r: "run z b st0 evs = Inr st" "loop_inv b st" "isOpen st = (CloseReq \<notin> set evs)"
       "concat (writes (trace st)) @ pending st
          = concat (writes (trace st0)) @ pending st0 @ received evs"
       "writes (trace st) = writes (trace st0) @ bs" "\<forall>x \<in> set bs. sized b x"
       "\<not> isOpen st \<longrightarrow> count st = 0"
    by blast
  have p0: "pending st0 = []" using s(4) by (simp add: pending_def)
  have e: "loop_inv b (consume_exit st)" "isOpen (consume_exit st) = isOpen st"
     "writes (trace (consume_exit st)) = writes (trace st)"
     "pending (consume_exit st) = pending st" "count (consume_exit st) = count st"
    using r(2) by (simp_all add: consume_exit_def loop_inv_def writes_append writes_call_stop
        pending_def split: option.splits)
  show ?thesis
    using s(1,5) r p0 e by (auto simp: consume_def)
qed

lemma iteration_item_below:
  assumes "loop_inv b st" "Suc (count st) < Size b"
  shows "iteration z b st (Item x)
           = Inr (st\<lparr>items := (items st)[count st := x], count := Suc (count st)\<rparr>)"
  using assms by (simp add: iteration_def loop_inv_def)

lemma run_items_below:
  assumes "loop_inv b st" "isOpen st" "count st + length xs < Size b"
  shows "\<exists>st'. run z b st (map Item xs) = Inr st' \<and> loop_inv b st' \<and> isOpen st'
           \<and> trace st' = trace st \<and> pending st' = pending st @ xs
           \<and> count st' = count st + length xs"
  using assms
proof (induction xs arbitrary: st)
  case Nil
  then show ?case by simp
next
  case (Cons x xs)
  let ?st1 = "st\<lparr>items := (items st)[count st := x], count := Suc (count st)\<rparr>"
  have lt: "Suc (count st) < Size b" using Cons.prems(3) by simp
  have it: "iteration z b st (Item x) = Inr ?st1"
    using Cons.prems(1) lt by (rule iteration_item_below)
  have inv1: "loop_inv b ?st1"
    using Cons.prems(1) lt by (simp add: loop_inv_def split: option.splits)
  have op1: "isOpen ?st1" using Cons.prems(2) by simp
  have c1: "count ?st1 + length xs < Size b" using Cons.prems(3) by simp
  have p1: "pending ?st1 = pending st @ [x]"
    using Cons.prems(1) lt by (simp add: pending_def loop_inv_def take_Suc_conv_app_nth)
  from Cons.IH[OF inv1 op1 c1] obtain st' where
    h: "run z b ?st1 (map Item xs) = Inr st'" "loop_inv b st'" "isOpen st'"
       "trace st' = trace ?st1" "pending st' = pending ?st1 @ xs"
       "count st' = count ?st1 + length xs"
    by blast
  show ?case using h it p1 Cons.prems(2) by simp
qed

lemma iteration_flush:
  assumes "validateBuffer b = None" "loop_inv b st" "receivable b [ev]"
    "select_case st ev = Inr st1" "mustFlush st1"
  shows "\<exists>st'. iteration z b st ev = Inr st' \<and> loop_inv b st' \<and> isOpen st' = isOpen st1
           \<and> count st' = 0 \<and> items st' = replicate (Size b) z \<and> pending st' = []
           \<and> trace st' = trace st @ call_stop (ticker st) @ [Write (pending st1)]
               @ (if FlushInterval b = 0 then [] else [TickerNew (made st) (FlushInterval b)])
           \<and> ticker st' = (if FlushInterval b = 0 then None else Some (made st))
           \<and> stopTicker st' = ticker st'"
proof -
  from select_case_ok[OF assms(2,3)] assms(4) have
    s: "count st1 \<le> length (items st1)" "trace st1 = trace st" "stopTicker st1 = stopTicker st"
       "made st1 = made st"
    by auto
  have st: "stopTicker st = ticker st" using assms(2) by (simp add: loop_inv_def)
  have "iteration z b st ev = flush z b st1"
    using assms(4,5) by (simp add: iteration_def)
  moreover from flushed_inv[OF assms(1) s(1), of z] have "loop_inv b (projr (flush z b st1))"
    by auto
  ultimately show ?thesis
    using s st by (simp add: flush_ok[OF assms(1) s(1)] pending_def)
qed

lemma run_items_capacity:
  assumes "validateBuffer b = None" "loop_inv b st" "isOpen st"
    "count st + length xs = Size b"
  shows "\<exists>st'. run z b st (map Item xs) = Inr st' \<and> loop_inv b st' \<and> isOpen st'
           \<and> writes (trace st') = writes (trace st) @ [pending st @ xs] \<and> pending st' = []"
proof -
  have "xs \<noteq> []" using assms(2,4) by (auto simp: loop_inv_def)
  then obtain ys y where xs: "xs = ys @ [y]" by (metis rev_exhaust)
  have below: "count st + length ys < Size b" using assms(4) xs by simp
  from run_items_below[OF assms(2,3) below, of z] obtain st1 where
    r: "run z b st (map Item ys) = Inr st1" "loop_inv b st1" "isOpen st1"
       "trace st1 = trace st" "pending st1 = pending st @ ys"
       "count st1 = count st + length ys"
    by blast
  have full: "Suc (count st1) = Size b" using r(6) assms(4) xs by simp
  have rcv: "receivable b [Item y]" by (simp add: receivable_def)
  from select_case_ok[OF r(2) rcv] full obtain st2 where
    s: "select_case st1 (Item y) = Inr st2" "mustFlush st2" "pending st2 = pending st1 @ [y]"
    by auto
  from iteration_flush[OF assms(1) r(2) rcv s(1,2), of z] obtain st' where
    f: "iteration z b st1 (Item y) = Inr st'" "loop_inv b st'" "isOpen st' = isOpen st2"
       "pending st' = []"
       "trace st' = trace st1 @ call_stop (ticker st1) @ [Write (pending st2)]
               @ (if FlushInterval b = 0 then [] else [TickerNew (made st1) (FlushInterval b)])"
    by blast
  have o2: "isOpen st2" using s(1) r(3) by (auto split: if_splits)
  have w: "writes (trace st') = writes (trace st) @ [pending st @ xs]"
    using f(5) r(4,5) s(3) xs by (simp add: writes_append writes_call_stop)
  have "run z b st (map Item xs) = Inr st'"
    using r(1,3) f(1) xs by (simp add: run_append)
  with f(2,3,4) o2 w show ?thesis by simp
qed

lemma buffer2_fields:
  "Size buffer2 = 2" "Flusher buffer2 = Some ()" "FlushInterval buffer2 = 0"
  "PushTimeout buffer2 = second" "FlushTimeout buffer2 = second" "CloseTimeout buffer2 = second"
  "dataCh buffer2 = NilChan" "flushCh buffer2 = NilChan" "closeCh buffer2 = NilChan"
  "doneCh buffer2 = NilChan"
  by (simp_all add: buffer2_def New_def WithSize_def WithFlusher_def)

lemma buffer2_valid: "validateBuffer buffer2 = None"
  by (simp add: valid_iff buffer2_fields second_def)

lemma buffer2_ticking_fields:
  "Size buffer2_ticking = 2" "Flusher buffer2_ticking = Some ()"
  "FlushInterval buffer2_ticking = 5"
  "PushTimeout buffer2_ticking = second" "FlushTimeout buffer2_ticking = second"
  "CloseTimeout buffer2_ticking = second"
  by (simp_all add: buffer2_ticking_def New_def WithSize_def WithFlusher_def
      WithFlushInterval_def)

lemma buffer2_ticking_valid: "validateBuffer buffer2_ticking = None"
  by (simp add: valid_iff buffer2_ticking_fields second_def)

lemma call_stop_no_done: "CloseDone \<notin> set (call_stop s)"
  by (simp add: call_stop_def split: option.splits)

lemma select_case_trace: "select_case st ev = Inr st1 \<Longrightarrow> trace st1 = trace st"
  by (cases ev) (auto split: if_splits option.splits)

lemma flush_no_done:
  assumes "flush z b st = Inr st'" "CloseDone \<notin> set (trace st)"
  shows "CloseDone \<notin> set (trace st')"
  using assms
  by (auto simp: flush_def flush_call_def flush_return_def newTicker_def call_stop_def
      split: sum.splits option.splits if_splits)

lemma iteration_no_done:
  assumes "iteration z b st ev = Inr st'" "CloseDone \<notin> set (trace st)"
  shows "CloseDone \<notin> set (trace st')"
proof -
  from assms(1) obtain st1 where s: "select_case st ev = Inr st1"
    by (auto simp: iteration_def split: sum.splits)
  then have t: "trace st1 = trace st" by (rule select_case_trace)
  show ?thesis
  proof (cases "mustFlush st1")
    case True
    then have "flush z b st1 = Inr st'" using assms(1) s by (simp add: iteration_def)
    then show ?thesis using assms(2) t by (auto dest: flush_no_done)
  next
    case False
    then have "st' = st1" using assms(1) s by (simp add: iteration_def)
    then show ?thesis using assms(2) t by simp
  qed
qed

lemma run_no_done:
  assumes "run z b st evs = Inr st'" "CloseDone \<notin> set (trace st)"
  shows "CloseDone \<notin> set (trace st')"
  using assms
proof (induction evs arbitrary: st)
  case Nil
  then show ?case by simp
next
  case (Cons ev evs)
  show ?case
  proof (cases "isOpen st")
    case True
    with Cons.prems(1) obtain st1 where
      i: "iteration z b st ev = Inr st1" "run z b st1 evs = Inr st'"
      by (auto split: sum.splits)
    from iteration_no_done[OF i(1) Cons.prems(2)] Cons.IH[OF i(2)] show ?thesis by simp
  next
    case False
    with Cons.prems show ?thesis by simp
  qed
qed

lemma reach_open:
  assumes "validateBuffer b = None" "receivable b evs" "CloseReq \<notin> set evs"
  shows "\<exists>st0 st. consume_start z b = Inr st0 \<and> run z b st0 evs = Inr st
           \<and> consume z b evs = Inr st \<and> loop_inv b st \<and> isOpen st
           \<and> CloseDone \<notin> set (trace st)
           \<and> concat (writes (trace st)) @ pending st = received evs"
proof -
  from consume_start_ok[OF assms(1), of z] obtain st0 where
    s: "consume_start z b = Inr st0" "loop_inv b st0" "isOpen st0" "count st0 = 0"
       "writes (trace st0) = []"
    by blast
  have nd0: "CloseDone \<notin> set (trace st0)"
    using s(1) assms(1)
    by (auto simp: consume_start_def newTicker_def valid_iff split: if_splits)
  have p0: "pending st0 = []" using s(4) by (simp add: pending_def)
  from run_ok[OF assms(1) s(2) assms(2) s(3), of z] obtain st where
    r: "run z b st0 evs = Inr st" "loop_inv b st" "isOpen st = (CloseReq \<notin> set evs)"
       "concat (writes (trace st)) @ pending st
          = concat (writes (trace st0)) @ pending st0 @ received evs"
    by blast
  from run_no_done[OF r(1) nd0] have nd: "CloseDone \<notin> set (trace st)" .
  have o: "isOpen st" using r(3) assms(3) by simp
  have "consume z b evs = Inr st" using s(1) r(1) o by (simp add: consume_def)
  with s(1,5) r o nd p0 show ?thesis by simp
qed

lemma close_step:
  assumes "validateBuffer b = None" "loop_inv b st"
  shows "\<exists>st' es. iteration z b st CloseReq = Inr st' \<and> \<not> isOpen st' \<and> loop_inv b st'
           \<and> pending st' = [] \<and> trace st' = trace st @ es \<and> CloseDone \<notin> set es
           \<and> writes es = (if pending st = [] then [] else [pending st])"
proof -
  have rc: "receivable b [CloseReq]" by (simp add: receivable_def)
  let ?st1 = "st\<lparr>isOpen := False, mustFlush := (count st > 0)\<rparr>"
  have s: "select_case st CloseReq = Inr ?st1" by simp
  have le: "count st < length (items st)" using assms(2) by (simp add: loop_inv_def)
  have pe: "(pending st = []) = (count st = 0)"
    using le by (auto simp: pending_def)
  show ?thesis
  proof (cases "count st = 0")
    case True
    then have "iteration z b st CloseReq = Inr ?st1" by (simp add: iteration_def)
    moreover have "loop_inv b ?st1"
      using assms(2) True by (simp add: loop_inv_def split: option.splits)
    moreover have "pending ?st1 = []" using True by (simp add: pending_def)
    ultimately show ?thesis using pe True by simp
  next
    case False
    then have m: "mustFlush ?st1" by simp
    from iteration_flush[OF assms rc s m, of z] obtain st' where
      f: "iteration z b st CloseReq = Inr st'" "loop_inv b st'" "isOpen st' = isOpen ?st1"
         "pending st' = []"
         "trace st' = trace st @ call_stop (ticker st) @ [Write (pending ?st1)]
               @ (if FlushInterval b = 0 then [] else [TickerNew (made st) (FlushInterval b)])"
      by blast
    let ?es = "call_stop (ticker st) @ [Write (pending ?st1)]
               @ (if FlushInterval b = 0 then [] else [TickerNew (made st) (FlushInterval b)])"
    have p1: "pending ?st1 = pending st" by (simp add: pending_def)
    have "CloseDone \<notin> set ?es" by (simp add: call_stop_no_done)
    moreover have "writes ?es = [pending st]"
      by (simp add: writes_append writes_call_stop p1)
    ultimately show ?thesis using f pe False by auto
  qed
qed

lemma tick_idle:
  assumes "loop_inv b st" "FlushInterval b \<noteq> 0" "count st = 0"
  shows "iteration z b st Tick = Inr st"
  using assms by (auto simp: iteration_def loop_inv_def split: option.splits)

lemma pending_empty: "loop_inv b st \<Longrightarrow> (pending st = []) = (count st = 0)"
  by (auto simp: pending_def loop_inv_def)


section \<open>Properties of the public operations\<close>

lemma apply_Option_chans:
  "dataCh (apply_Option opt b) = dataCh b" "flushCh (apply_Option opt b) = flushCh b"
  "closeCh (apply_Option opt b) = closeCh b" "doneCh (apply_Option opt b) = doneCh b"
  by (cases opt; simp add: WithSize_def WithFlusher_def WithFlushInterval_def
      WithPushTimeout_def WithFlushTimeout_def WithCloseTimeout_def)+

lemma foldl_Option_chans:
  "dataCh (foldl (\<lambda>buffer opt. apply_Option opt buffer) b opts) = dataCh b
   \<and> flushCh (foldl (\<lambda>buffer opt. apply_Option opt buffer) b opts) = flushCh b
   \<and> closeCh (foldl (\<lambda>buffer opt. apply_Option opt buffer) b opts) = closeCh b
   \<and> doneCh (foldl (\<lambda>buffer opt. apply_Option opt buffer) b opts) = doneCh b"
  by (induction opts arbitrary: b) (simp_all add: apply_Option_chans)

lemma New_chans:
  "dataCh (New opts) = NilChan" "flushCh (New opts) = NilChan"
  "closeCh (New opts) = NilChan" "doneCh (New opts) = NilChan"
  by (simp_all add: New_def foldl_Option_chans)

lemma receives_close:
  assumes "waiting s st"
  shows "worker_receives s CloseReq =
     (if count st = 0
      then s\<lparr>buf := (buf s)\<lparr>doneCh := ClosedChan\<rparr>,
             worker := Some (Exited (consume_exit (st\<lparr>isOpen := False, mustFlush := False\<rparr>)))\<rparr>
      else s\<lparr>worker := Some (Writing (st\<lparr>isOpen := False, mustFlush := True,
               trace := trace st @ call_stop (stopTicker st) @ [Write (pending st)]\<rparr>))\<rparr>)"
  using assms
  by (auto simp: waiting_def worker_receives_def flush_call_def resume_def close_chan_def
      loop_inv_def valid_iff pending_def)

lemma worker_same: "worker s = w \<Longrightarrow> s\<lparr>worker := w\<rparr> = s"
  by auto

lemma receives_flush:
  assumes "waiting s st"
  shows "worker_receives s FlushReq =
     (if count st = 0 then s
      else s\<lparr>worker := Some (Writing (st\<lparr>mustFlush := True,
               trace := trace st @ call_stop (stopTicker st) @ [Write (pending st)]\<rparr>))\<rparr>)"
  using assms
  by (auto simp: waiting_def worker_receives_def flush_call_def resume_def
      loop_inv_def valid_iff pending_def upd_same worker_same)

lemma sink_returns_writing:
  assumes "validateBuffer (buf s) = None" "worker s = Some (Writing st)"
  shows "\<exists>st'. flush_return z (buf s) st = Inr st' \<and> sink_returns z s = resume s st'
           \<and> loop_inv (buf s) st' \<and> isOpen st' = isOpen st \<and> count st' = 0
           \<and> writes (trace st') = writes (trace st)"
  using assms
  by (auto simp: sink_returns_def flush_return_def newTicker_valid valid_iff loop_inv_def
      writes_append)

lemma sink_returns_open:
  assumes "writing s st"
  shows "\<exists>st'. sink_returns z s = s\<lparr>worker := Some (Selecting st')\<rparr> \<and> waiting (sink_returns z s) st'
           \<and> count st' = 0 \<and> writes (trace st') = writes (trace st)"
proof -
  from assms have v: "validateBuffer (buf s) = None" and w: "worker s = Some (Writing st)"
    and o: "isOpen st"
    by (simp_all add: writing_def)
  from sink_returns_writing[OF v w, of z] obtain st' where
    f: "sink_returns z s = resume s st'" "loop_inv (buf s) st'" "isOpen st' = isOpen st"
       "count st' = 0" "writes (trace st') = writes (trace st)"
    by blast
  have "sink_returns z s = s\<lparr>worker := Some (Selecting st')\<rparr>"
    using f(1,3) o by (simp add: resume_def)
  moreover from this have "waiting (sink_returns z s) st'"
    using assms f(2,3) o by (simp add: waiting_def writing_def)
  ultimately show ?thesis using f(4,5) by blast
qed

lemma Close_closed:
  "closed (buf s) \<Longrightarrow> Close z s sch1 sch2 = (Returned (Some ErrClosed), [], s)"
  by (simp add: Close_def)

lemma Close_ErrClosed_iff:
  "(fst (Close z s sch1 sch2) = Returned (Some ErrClosed)) = closed (buf s)"
  by (auto simp: Close_def await_done_def Let_def
      split: sent.splits sched.splits prod.splits sum.splits if_splits)

lemma initialize_ok:
  assumes "validateBuffer (buf s) = None"
  shows "\<exists>s0 st0. initialize z s = Inr s0 \<and> waiting s0 st0 \<and> count st0 = 0
           \<and> writes (trace st0) = []
           \<and> buf s0 = (buf s)\<lparr>dataCh := OpenChan, flushCh := OpenChan, closeCh := OpenChan,
                               doneCh := OpenChan\<rparr>"
proof -
  from consume_start_ok[OF assms, of z] obtain st0 where
    c: "consume_start z (buf s) = Inr st0" "loop_inv (buf s) st0" "isOpen st0" "count st0 = 0"
       "writes (trace st0) = []"
    by blast
  let ?b = "(buf s)\<lparr>dataCh := OpenChan, flushCh := OpenChan, closeCh := OpenChan,
                    doneCh := OpenChan\<rparr>"
  have v: "validateBuffer ?b = None" using assms by (simp add: valid_iff)
  have i: "loop_inv ?b st0" using c(2) by (simp add: loop_inv_def split: option.splits)
  have "initialize z s = Inr \<lparr>buf = ?b, worker = Some (Selecting st0)\<rparr>"
    using assms c(1) by (simp add: initialize_def)
  moreover have "waiting \<lparr>buf = ?b, worker = Some (Selecting st0)\<rparr> st0"
    using v i c(3) by (simp add: waiting_def)
  ultimately show ?thesis using c(4,5) by auto
qed

lemma receives_item:
  assumes "waiting s st"
  shows "worker_receives s (Item x) =
     (if Suc (count st) = Size (buf s)
      then s\<lparr>worker := Some (Writing (st\<lparr>items := (items st)[count st := x],
               count := Suc (count st), mustFlush := True,
               trace := trace st @ call_stop (stopTicker st)
                 @ [Write (take (Suc (count st)) ((items st)[count st := x]))]\<rparr>))\<rparr>
      else s\<lparr>worker := Some (Selecting (st\<lparr>items := (items st)[count st := x],
               count := Suc (count st)\<rparr>))\<rparr>)"
  using assms
  by (auto simp: waiting_def worker_receives_def flush_call_def resume_def
      loop_inv_def valid_iff)

lemma take_Suc_update:
  "c < length xs \<Longrightarrow> take (Suc c) (xs[c := x]) = take c xs @ [x]"
  by (simp add: take_Suc_conv_app_nth)

lemma Push_waiting:
  assumes "waiting s st"
  shows "Push z s x Handoff = (Returned None, [Sent], worker_receives s (Item x))"
  using assms
  by (simp add: Push_def waiting_def IsIntialized_def closed_def try_send_def selecting_def)

lemma after_item:
  assumes "waiting s st"
  shows "if Suc (count st) = Size (buf s)
         then \<exists>st'. writing (worker_receives s (Item x)) st'
                \<and> writes (trace st') = writes (trace st) @ [pending st @ [x]]
         else \<exists>st'. waiting (worker_receives s (Item x)) st'
                \<and> trace st' = trace st \<and> pending st' = pending st @ [x]"
proof (cases "Suc (count st) = Size (buf s)")
  case True
  have "take (Suc (count st)) ((items st)[count st := x]) = pending st @ [x]"
    using assms unfolding pending_def
    by (intro take_Suc_update) (simp add: waiting_def loop_inv_def)
  with True show ?thesis
    using assms
    by (simp add: receives_item[OF assms] waiting_def writing_def writes_append
        writes_call_stop)
next
  case False
  moreover have "pending (st\<lparr>items := (items st)[count st := x], count := Suc (count st)\<rparr>)
           = pending st @ [x]"
    using assms by (simp add: waiting_def loop_inv_def pending_def take_Suc_conv_app_nth)
  ultimately show ?thesis
    using assms
    by (simp add: receives_item[OF assms] waiting_def loop_inv_def split: option.splits)
qed

lemma Push_fresh:
  fixes z :: 'a and opts :: "'f Option list"
  assumes "validateBuffer (New opts) = None"
  shows "\<exists>s0 st0. initialize z (fresh opts) = Inr s0 \<and> waiting s0 st0 \<and> pending st0 = []
           \<and> writes (trace st0) = []
           \<and> buf s0 = (New opts)\<lparr>dataCh := OpenChan, flushCh := OpenChan,
                 closeCh := OpenChan, doneCh := OpenChan\<rparr>
           \<and> Push z (fresh opts) x Handoff = (Returned None, [Sent], worker_receives s0 (Item x))"
proof -
  have v: "validateBuffer (buf (fresh opts :: ('a, 'f) system)) = None"
    using assms by (simp add: fresh_def)
  from initialize_ok[OF v, of z] obtain s0 st0 where
    i: "initialize z (fresh opts) = Inr s0" "waiting s0 st0" "count st0 = 0"
       "writes (trace st0) = []"
       "buf s0 = (buf (fresh opts :: ('a, 'f) system))\<lparr>dataCh := OpenChan, flushCh := OpenChan,
            closeCh := OpenChan, doneCh := OpenChan\<rparr>"
    by blast
  have "Push z (fresh opts) x Handoff = Push z s0 x Handoff"
    using i(1,2) v
    by (simp add: Push_def IsIntialized_def fresh_def New_chans Validate_def waiting_def)
  with Push_waiting[OF i(2), of z x] i show ?thesis
    by (auto simp: pending_def fresh_def)
qed

lemma Flush_waiting:
  assumes "waiting s st"
  shows "Flush s Handoff = (Returned None, [Sent], worker_receives s FlushReq)"
  using assms
  by (simp add: Flush_def waiting_def closed_def try_send_def selecting_def)

lemma close_exit:
  assumes "waiting s st"
  shows "\<exists>st'. worker (sink_returns z (worker_receives s CloseReq)) = Some (Exited st')
           \<and> buf (sink_returns z (worker_receives s CloseReq)) = (buf s)\<lparr>doneCh := ClosedChan\<rparr>
           \<and> writes (trace st')
               = writes (trace st) @ (if pending st = [] then [] else [pending st])
           \<and> (if pending st = []
               then worker_receives s CloseReq = sink_returns z (worker_receives s CloseReq)
               else (\<exists>st2. worker (worker_receives s CloseReq) = Some (Writing st2))
                  \<and> buf (worker_receives s CloseReq) = buf s)"
proof -
  from assms have v: "validateBuffer (buf s) = None" and d: "doneCh (buf s) = OpenChan"
    and inv: "loop_inv (buf s) st"
    by (simp_all add: waiting_def)
  have pe: "(pending st = []) = (count st = 0)" using inv by (rule pending_empty)
  show ?thesis
  proof (cases "count st = 0")
    case True
    then show ?thesis
      using pe
      by (simp add: receives_close[OF assms] sink_returns_def consume_exit_def writes_append
          writes_call_stop)
  next
    case False
    let ?st2 = "st\<lparr>isOpen := False, mustFlush := True,
               trace := trace st @ call_stop (stopTicker st) @ [Write (pending st)]\<rparr>"
    let ?s1 = "s\<lparr>worker := Some (Writing ?st2)\<rparr>"
    have r: "worker_receives s CloseReq = ?s1"
      using False by (simp add: receives_close[OF assms])
    have v1: "validateBuffer (buf ?s1) = None" and w1: "worker ?s1 = Some (Writing ?st2)"
      using v by simp_all
    from sink_returns_writing[OF v1 w1, of z] obtain st3 where
      f: "sink_returns z ?s1 = resume ?s1 st3" "isOpen st3 = isOpen ?st2"
         "writes (trace st3) = writes (trace ?st2)"
      by blast
    have "sink_returns z ?s1
        = ?s1\<lparr>buf := (buf s)\<lparr>doneCh := ClosedChan\<rparr>, worker := Some (Exited (consume_exit st3))\<rparr>"
      using f(1,2) d by (simp add: resume_def close_chan_def)
    moreover have "writes (trace (consume_exit st3)) = writes (trace st) @ [pending st]"
      using f(3) by (simp add: consume_exit_def writes_append writes_call_stop)
    ultimately show ?thesis
      using r pe False by simp
  qed
qed

lemma Close_accepted_expired:
  assumes "waiting s st"
  shows "Close z s Handoff Expire
     = (Returned (Some (Join (ErrorString ''failed to close buffer within close timeout'')
                          ErrTimeout)),
        [Sent, TimedOut (CloseTimeout (buf s))], worker_receives s CloseReq)"
proof -
  have "CloseTimeout (buf (worker_receives s CloseReq)) = CloseTimeout (buf s)"
    by (simp add: receives_close[OF assms])
  then show ?thesis
    using assms
    by (simp add: Close_def waiting_def closed_def try_send_def selecting_def await_done_def)
qed

lemma Close_waiting_ok:
  assumes "waiting s st"
  shows "\<exists>s' st'. Close z s Handoff Handoff = (Returned None, [Sent, Received], s')
           \<and> closed (buf s') \<and> dataCh (buf s') = ClosedChan \<and> flushCh (buf s') = ClosedChan
           \<and> closeCh (buf s') = ClosedChan
           \<and> worker s' = Some (Exited st')
           \<and> writes (trace st')
               = writes (trace st) @ (if pending st = [] then [] else [pending st])"
proof -
  let ?s2 = "sink_returns z (worker_receives s CloseReq)"
  from close_exit[OF assms, of z] obtain st' where
    e: "worker ?s2 = Some (Exited st')" "buf ?s2 = (buf s)\<lparr>doneCh := ClosedChan\<rparr>"
       "writes (trace st')
          = writes (trace st) @ (if pending st = [] then [] else [pending st])"
    by blast
  have c: "close_channels (buf ?s2)
         = Inr ((buf ?s2)\<lparr>dataCh := ClosedChan, flushCh := ClosedChan, closeCh := ClosedChan\<rparr>)"
    using assms e(2) by (simp add: close_channels_def close_chan_def waiting_def)
  have "Close z s Handoff Handoff
      = (Returned None, [Sent, Received],
         ?s2\<lparr>buf := (buf ?s2)\<lparr>dataCh := ClosedChan, flushCh := ClosedChan,
                  closeCh := ClosedChan\<rparr>\<rparr>)"
    using assms c e(2)
    by (simp add: Close_def waiting_def closed_def try_send_def selecting_def await_done_def)
  with e show ?thesis by (simp add: closed_def)
qed

lemma Close_success:
  assumes "Close z s sch1 sch2 = (Returned None, ws, s')"
  shows "closed (buf s') \<and> dataCh (buf s') = ClosedChan"
  using assms
  by (auto simp: Close_def await_done_def close_channels_def close_chan_def closed_def Let_def
      split: if_splits sent.splits sched.splits prod.splits sum.splits chan.splits)

lemma Push_closed:
  "closed (buf s) \<Longrightarrow> IsIntialized (buf s) \<Longrightarrow> Push z s x sch = (Returned (Some ErrClosed), [], s)"
  by (simp add: Push_def)

lemma Flush_closed: "closed (buf s) \<Longrightarrow> Flush s sch = (Returned (Some ErrClosed), [], s)"
  by (simp add: Flush_def)

lemma pushed_one_waiting:
  "\<exists>st. waiting pushed_one st \<and> pending st = [1] \<and> writes (trace st) = []
     \<and> Size (buf pushed_one) = 2 \<and> CloseTimeout (buf pushed_one) = second"
proof -
  have v: "validateBuffer (New [OptSize 2, OptFlusher (Some ())] :: unit Buffer) = None"
    using buffer2_valid by (simp add: buffer2_def)
  from Push_fresh[OF v, of "0 :: nat" 1] obtain s0 st0 where
    p: "waiting s0 st0" "pending st0 = []" "writes (trace st0) = []"
       "buf s0 = (New [OptSize 2, OptFlusher (Some ())])
            \<lparr>dataCh := OpenChan, flushCh := OpenChan, closeCh := OpenChan, doneCh := OpenChan\<rparr>"
       "Push (0 :: nat) (fresh [OptSize 2, OptFlusher (Some ())]) 1 Handoff
          = (Returned None, [Sent], worker_receives s0 (Item 1))"
    by blast
  have sz: "Size (buf s0) = 2" "CloseTimeout (buf s0) = second"
    using p(4) buffer2_fields by (simp_all add: buffer2_def)
  have "loop_inv (buf s0) st0" using p(1) by (simp add: waiting_def)
  then have c0: "count st0 = 0" using p(2) by (simp add: pending_empty)
  have po: "pushed_one = worker_receives s0 (Item 1)" using p(5) by (simp add: pushed_one_def)
  have b: "buf (worker_receives s0 (Item 1)) = buf s0"
    by (simp add: receives_item[OF p(1)])
  from after_item[OF p(1), of 1] sz c0 obtain st' where
    "waiting (worker_receives s0 (Item 1)) st'" "trace st' = trace st0"
    "pending st' = pending st0 @ [1]"
    by auto
  with po p(2,3) sz b show ?thesis by auto
qed

lemma flush_step:
  assumes "validateBuffer b = None" "loop_inv b st"
  shows "\<exists>st'. iteration z b st FlushReq = Inr st' \<and> isOpen st' = isOpen st \<and> loop_inv b st'
           \<and> pending st' = []
           \<and> writes (trace st')
               = writes (trace st) @ (if pending st = [] then [] else [pending st])"
proof -
  have rc: "receivable b [FlushReq]" by (simp add: receivable_def)
  let ?st1 = "st\<lparr>mustFlush := (count st > 0)\<rparr>"
  have s: "select_case st FlushReq = Inr ?st1" by simp
  have pe: "(pending st = []) = (count st = 0)" using assms(2) by (rule pending_empty)
  show ?thesis
  proof (cases "count st = 0")
    case True
    have "\<not> mustFlush st" using assms(2) by (simp add: loop_inv_def)
    then have "iteration z b st FlushReq = Inr st" using True by (simp add: iteration_def)
    then show ?thesis using assms(2) pe True by simp
  next
    case False
    then have m: "mustFlush ?st1" by simp
    from iteration_flush[OF assms rc s m, of z] obtain st' where
      f: "iteration z b st FlushReq = Inr st'" "loop_inv b st'" "isOpen st' = isOpen ?st1"
         "pending st' = []"
         "trace st' = trace st @ call_stop (ticker st) @ [Write (pending ?st1)]
               @ (if FlushInterval b = 0 then [] else [TickerNew (made st) (FlushInterval b)])"
      by blast
    have p1: "pending ?st1 = pending st" by (simp add: pending_def)
    have "writes (trace st') = writes (trace st) @ [pending st]"
      using f(5) p1 by (simp add: writes_append writes_call_stop)
    with f pe False show ?thesis by simp
  qed
qed

lemma New2: "(New [OptSize 2, OptFlusher (Some ())] :: unit Buffer) = buffer2"
  by (simp add: buffer2_def)

lemma pushed_one_eq:
  "pushed_one =
     \<lparr>buf = buffer2\<lparr>dataCh := OpenChan, flushCh := OpenChan, closeCh := OpenChan,
                     doneCh := OpenChan\<rparr>,
      worker = Some (Selecting \<lparr>count = 1, items = [1, 0], mustFlush = False, ticker = None,
                 stopTicker = None, isOpen = True, made = 0, trace = []\<rparr>)\<rparr>"
  unfolding pushed_one_def fresh_def New2
  by (simp add: Push_def IsIntialized_def Validate_def
      buffer2_valid buffer2_fields initialize_def consume_start_def newTicker_def closed_def
      try_send_def selecting_def worker_receives_def resume_def numeral_2_eq_2)

lemma close_stalled_eq:
  "close_stalled =
     \<lparr>buf = buffer2\<lparr>dataCh := OpenChan, flushCh := OpenChan, closeCh := OpenChan,
                     doneCh := OpenChan\<rparr>,
      worker = Some (Writing \<lparr>count = 1, items = [1, 0], mustFlush = True, ticker = None,
                 stopTicker = None, isOpen = False, made = 0, trace = [Write [1]]\<rparr>)\<rparr>"
  by (simp add: close_stalled_def pushed_one_eq Close_def closed_def try_send_def
      selecting_def worker_receives_def flush_call_def buffer2_fields call_stop_def
      await_done_def)

lemma sink_done_eq:
  "sink_done =
     \<lparr>buf = buffer2\<lparr>dataCh := OpenChan, flushCh := OpenChan, closeCh := OpenChan,
                     doneCh := ClosedChan\<rparr>,
      worker = Some (Exited \<lparr>count = 0, items = [0, 0], mustFlush = False, ticker = None,
                 stopTicker = None, isOpen = False, made = 0,
                 trace = [Write [1], CloseDone]\<rparr>)\<rparr>"
  by (simp add: sink_done_def close_stalled_eq sink_returns_def flush_return_def newTicker_def
      buffer2_fields resume_def close_chan_def consume_exit_def call_stop_def numeral_2_eq_2)

lemma pushed_full_writing: "\<exists>st. writing pushed_full st"
proof -
  from pushed_one_waiting obtain st where
    w: "waiting pushed_one st" "pending st = [1]" "Size (buf pushed_one) = 2"
    by blast
  have "loop_inv (buf pushed_one) st" using w(1) by (simp add: waiting_def)
  then have "length (pending st) = count st" by (simp add: pending_def loop_inv_def)
  then have c: "Suc (count st) = Size (buf pushed_one)" using w(2,3) by simp
  have "pushed_full = worker_receives pushed_one (Item 2)"
    by (simp add: pushed_full_def Push_waiting[OF w(1)])
  with after_item[OF w(1), of 2] c show ?thesis by auto
qed

lemma push_all_append:
  "push_all z s (as @ bs) =
     (case push_all z s as of
        (rs, s') \<Rightarrow> (case push_all z s' bs of (rs', s'') \<Rightarrow> (rs @ rs', s'')))"
  by (induction as arbitrary: s) (auto split: prod.splits)

lemma push_all_below:
  assumes "waiting s st" "count st + length xs < Size (buf s)"
  shows "\<exists>s' st'. push_all z s xs = (replicate (length xs) (Returned None), s')
           \<and> waiting s' st' \<and> trace st' = trace st \<and> pending st' = pending st @ xs
           \<and> count st' = count st + length xs \<and> buf s' = buf s"
  using assms
proof (induction xs arbitrary: s st)
  case Nil
  then show ?case by auto
next
  case (Cons x xs)
  let ?s1 = "worker_receives s (Item x)"
  have ne: "Suc (count st) \<noteq> Size (buf s)" using Cons.prems(2) by simp
  from after_item[OF Cons.prems(1), of x] ne obtain st1 where
    a: "waiting ?s1 st1" "trace st1 = trace st" "pending st1 = pending st @ [x]"
    by auto
  have b1: "buf ?s1 = buf s" using ne by (simp add: receives_item[OF Cons.prems(1)])
  have "loop_inv (buf ?s1) st1" "loop_inv (buf s) st"
    using a(1) Cons.prems(1) by (simp_all add: waiting_def)
  then have "length (pending st1) = count st1" "length (pending st) = count st"
    by (simp_all add: pending_def loop_inv_def)
  then have c1: "count st1 = Suc (count st)" using a(3) by simp
  have lt: "count st1 + length xs < Size (buf ?s1)" using c1 b1 Cons.prems(2) by simp
  from Cons.IH[OF a(1) lt] obtain s' st' where
    h: "push_all z ?s1 xs = (replicate (length xs) (Returned None), s')"
       "waiting s' st'" "trace st' = trace st1" "pending st' = pending st1 @ xs"
       "count st' = count st1 + length xs" "buf s' = buf ?s1"
    by blast
  have "push_all z s (x # xs) = (replicate (length (x # xs)) (Returned None), s')"
    using h(1) by (simp add: Push_waiting[OF Cons.prems(1)])
  with h a c1 b1 show ?case by auto
qed

lemma push_all_capacity:
  assumes "waiting s st" "count st + length xs = Size (buf s)"
  shows "\<exists>s' st'. push_all z s xs = (replicate (length xs) (Returned None), s')
           \<and> writing s' st' \<and> writes (trace st') = writes (trace st) @ [pending st @ xs]"
proof -
  have "count st < Size (buf s)" using assms(1) by (simp add: waiting_def loop_inv_def)
  then have "xs \<noteq> []" using assms(2) by auto
  then obtain ys y where xs: "xs = ys @ [y]" by (metis rev_exhaust)
  have below: "count st + length ys < Size (buf s)" using assms(2) xs by simp
  from push_all_below[OF assms(1) below, of z] obtain s1 st1 where
    b: "push_all z s ys = (replicate (length ys) (Returned None), s1)"
       "waiting s1 st1" "trace st1 = trace st" "pending st1 = pending st @ ys"
       "count st1 = count st + length ys" "buf s1 = buf s"
    by blast
  have full: "Suc (count st1) = Size (buf s1)" using b(5,6) assms(2) xs by simp
  from after_item[OF b(2), of y] full obtain st' where
    a: "writing (worker_receives s1 (Item y)) st'"
       "writes (trace st') = writes (trace st1) @ [pending st1 @ [y]]"
    by auto
  have "push_all z s xs
      = (replicate (length ys) (Returned None) @ [Returned None], worker_receives s1 (Item y))"
    using b(1) xs by (simp add: push_all_append Push_waiting[OF b(2)])
  moreover have "replicate (length ys) (Returned None) @ [Returned None]
      = replicate (length xs) (Returned None)"
    using xs by (simp add: replicate_append_same)
  ultimately show ?thesis using a b(3,4) xs by auto
qed

lemma push_all_fresh:
  fixes z :: 'a and opts :: "'f Option list"
  assumes "validateBuffer (New opts) = None" "xs \<noteq> []"
  shows "\<exists>s0 st0. waiting s0 st0 \<and> pending st0 = [] \<and> writes (trace st0) = []
           \<and> Size (buf s0) = Size (New opts)
           \<and> push_all z (fresh opts) xs = push_all z s0 xs"
proof -
  from assms(2) obtain y ys where xs: "xs = y # ys" by (cases xs) auto
  from Push_fresh[OF assms(1), of z y] obtain s0 st0 where
    p: "waiting s0 st0" "pending st0 = []" "writes (trace st0) = []"
       "buf s0 = (New opts)\<lparr>dataCh := OpenChan, flushCh := OpenChan,
                 closeCh := OpenChan, doneCh := OpenChan\<rparr>"
       "Push z (fresh opts) y Handoff = (Returned None, [Sent], worker_receives s0 (Item y))"
    by blast
  have e: "push_all z (fresh opts) xs = push_all z s0 xs"
    using p(5) xs by (simp add: Push_waiting[OF p(1)])
  have "Size (buf s0) = Size (New opts)" using p(4) by simp
  with p(1,2,3) e show ?thesis by blast
qed


lemma in_sink_open: "in_sink s st \<Longrightarrow> isOpen st \<Longrightarrow> writing s st"
  by (simp add: in_sink_def writing_def)

lemma Close_in_sink:
  assumes "in_sink s st"
  shows "Close z s sch1 sch2
     = (Returned (Some (Join (ErrorString ''failed to close buffer within close timeout'')
                          ErrTimeout)),
        [TimedOut (CloseTimeout (buf s))], s)"
  using assms
  by (cases sch1) (simp_all add: Close_def in_sink_def closed_def try_send_def selecting_def)

lemma sink_returns_leaving:
  assumes "in_sink s st" "\<not> isOpen st"
  shows "\<exists>st'. worker (sink_returns z s) = Some (Exited st')
           \<and> buf (sink_returns z s) = (buf s)\<lparr>doneCh := ClosedChan\<rparr>
           \<and> writes (trace st') = writes (trace st)"
proof -
  from assms(1) have v: "validateBuffer (buf s) = None" and w: "worker s = Some (Writing st)"
    and d: "doneCh (buf s) = OpenChan"
    by (simp_all add: in_sink_def)
  from sink_returns_writing[OF v w, of z] obtain st' where
    f: "sink_returns z s = resume s st'" "isOpen st' = isOpen st"
       "writes (trace st') = writes (trace st)"
    by blast
  have "sink_returns z s
      = s\<lparr>buf := (buf s)\<lparr>doneCh := ClosedChan\<rparr>, worker := Some (Exited (consume_exit st'))\<rparr>"
    using f(1,2) assms(2) d by (simp add: resume_def close_chan_def)
  moreover have "writes (trace (consume_exit st')) = writes (trace st)"
    using f(3) by (simp add: consume_exit_def writes_append writes_call_stop)
  ultimately show ?thesis by simp
qed

lemma Push_invalid:
  assumes "validateBuffer (buf s) = Some err" "\<not> IsIntialized (buf s)"
  shows "Push z s item sch = (Returned (Some err), [], s)"
  using assms by (simp add: Push_def Validate_def)

lemma initialize_invalid:
  "validateBuffer (buf s) = Some err \<Longrightarrow> initialize z s = Inl err"
  by (simp add: initialize_def)

lemma violated_invalid: "violated r options \<Longrightarrow> validateBuffer options \<noteq> None"
  by (cases r) (auto simp: valid_iff)

lemma writing_in_sink: "writing s st \<Longrightarrow> in_sink s st \<and> isOpen st"
  by (simp add: in_sink_def writing_def)

lemma close_stalled_in_sink:
  "in_sink close_stalled \<lparr>count = 1, items = [1, 0], mustFlush = True, ticker = None,
      stopTicker = None, isOpen = False, made = 0, trace = [Write [1]]\<rparr>"
  by (simp add: in_sink_def close_stalled_eq valid_iff buffer2_fields second_def)


section \<open>Claims\<close>

text \<open>
  C1. On a validated buffer, exactly \<open>Size\<close> items received from the start, with no
  tick, flush request or close request between them, make the worker call the sink's
  \<^verbatim>\<open>Write\<close> exactly once, with all the items in the order received. For any events
  the worker can receive, the batches written so far, one after the other, followed by
  the pending batch are the items received, in order; once a close request was received
  nothing is pending, and the batches alone are the items received. On a new buffer,
  \<open>Size\<close> calls of \<open>Push\<close>, each handed to the worker, all return no error and leave
  the worker in the one call of \<^verbatim>\<open>Write\<close>, with the items pushed, in order.
\<close>

theorem C1_capacity_batch_in_order:
  fixes z :: 'a and b :: "'f Buffer" and opts :: "'f Option list"
  assumes "validateBuffer b = None"
  shows "(length xs = Size b \<longrightarrow>
            (\<exists>st. consume z b (map Item xs) = Inr st \<and> isOpen st
               \<and> writes (trace st) = [xs] \<and> pending st = []))
       \<and> (receivable b evs \<longrightarrow>
            (\<exists>st. consume z b evs = Inr st
               \<and> concat (writes (trace st)) @ pending st = received evs
               \<and> (CloseReq \<in> set evs \<longrightarrow> concat (writes (trace st)) = received evs)))
       \<and> (New opts = b \<and> length xs = Size b \<longrightarrow>
            (\<exists>s' st'. push_all z (fresh opts) xs = (replicate (length xs) (Returned None), s')
               \<and> worker s' = Some (Writing st') \<and> writes (trace st') = [xs]))"
proof (intro conjI impI)
  assume len: "length xs = Size b"
  from consume_start_ok[OF assms, of z] obtain st0 where
    s: "consume_start z b = Inr st0" "loop_inv b st0" "isOpen st0" "count st0 = 0"
       "writes (trace st0) = []"
    by blast
  have c: "count st0 + length xs = Size b" using s(4) len by simp
  have p0: "pending st0 = []" using s(4) by (simp add: pending_def)
  from run_items_capacity[OF assms s(2,3) c, of z] obtain st where
    "run z b st0 (map Item xs) = Inr st" "isOpen st"
    "writes (trace st) = writes (trace st0) @ [pending st0 @ xs]" "pending st = []"
    by blast
  with s(1,5) p0
  show "\<exists>st. consume z b (map Item xs) = Inr st \<and> isOpen st
               \<and> writes (trace st) = [xs] \<and> pending st = []"
    by (simp add: consume_def)
next
  assume rcv: "receivable b evs"
  from consume_ok[OF assms rcv, of z] obtain st where
    c: "consume z b evs = Inr st" "isOpen st = (CloseReq \<notin> set evs)"
       "concat (writes (trace st)) @ pending st = received evs"
       "\<not> isOpen st \<longrightarrow> count st = 0"
    by blast
  have "CloseReq \<in> set evs \<longrightarrow> pending st = []"
    using c(2,4) by (simp add: pending_def)
  with c(1,3)
  show "\<exists>st. consume z b evs = Inr st
               \<and> concat (writes (trace st)) @ pending st = received evs
               \<and> (CloseReq \<in> set evs \<longrightarrow> concat (writes (trace st)) = received evs)"
    by auto
next
  assume "New opts = b \<and> length xs = Size b"
  then have n: "New opts = b" and len: "length xs = Size b" by simp_all
  have v: "validateBuffer (New opts) = None" using assms n by simp
  have ne: "xs \<noteq> []" using assms len by (auto simp: valid_iff)
  from push_all_fresh[OF v ne, of z] obtain s0 st0 where
    p: "waiting s0 st0" "pending st0 = []" "writes (trace st0) = []"
       "Size (buf s0) = Size (New opts)"
       "push_all z (fresh opts) xs = push_all z s0 xs"
    by blast
  have "loop_inv (buf s0) st0" using p(1) by (simp add: waiting_def)
  then have "count st0 = 0" using p(2) by (simp add: pending_empty)
  then have full: "count st0 + length xs = Size (buf s0)" using len n p(4) by simp
  from push_all_capacity[OF p(1) full, of z] obtain s' st' where
    "push_all z s0 xs = (replicate (length xs) (Returned None), s')"
    "writing s' st'" "writes (trace st') = writes (trace st0) @ [pending st0 @ xs]"
    by blast
  with p(2,3,5)
  show "\<exists>s' st'. push_all z (fresh opts) xs = (replicate (length xs) (Returned None), s')
               \<and> worker s' = Some (Writing st') \<and> writes (trace st') = [xs]"
    by (auto simp: writing_def)
qed

theorem C1_capacity_batch_in_order_witness:
  "validateBuffer buffer2 = None
   \<and> length [1, 2 :: nat] = Size buffer2
   \<and> receivable buffer2 [Item (1 :: nat), FlushReq, Item 2, Item 3, CloseReq]
   \<and> New [OptSize 2, OptFlusher (Some ())] = buffer2
   \<and> (\<exists>st. consume 0 buffer2 (map Item [1, 2 :: nat]) = Inr st
         \<and> writes (trace st) = [[1, 2]])
   \<and> (\<exists>st. consume 0 buffer2 [Item (1 :: nat), FlushReq, Item 2, Item 3, CloseReq] = Inr st
         \<and> concat (writes (trace st)) = [1, 2, 3])
   \<and> (\<exists>s' st'. push_all 0 (fresh [OptSize 2, OptFlusher (Some ())]) [1, 2 :: nat]
                  = ([Returned None, Returned None], s')
         \<and> worker s' = Some (Writing st') \<and> writes (trace st') = [[1, 2]])"
proof -
  have l: "length [1, 2 :: nat] = Size buffer2" by (simp add: buffer2_fields)
  have r: "receivable buffer2 [Item (1 :: nat), FlushReq, Item 2, Item 3, CloseReq]"
    by (simp add: receivable_def)
  have n: "New [OptSize 2, OptFlusher (Some ())] = buffer2" by (rule New2)
  have rep: "replicate (length [1, 2 :: nat]) (Returned None) = [Returned None, Returned None]"
    by (simp add: numeral_2_eq_2)
  from C1_capacity_batch_in_order [OF buffer2_valid, where xs = "[1, 2 :: nat]" and z = 0
      and evs = "[Item (1 :: nat), FlushReq, Item 2, Item 3, CloseReq]"
      and opts = "[OptSize 2, OptFlusher (Some ())]"] l r n
  have "(\<exists>st. consume 0 buffer2 (map Item [1, 2 :: nat]) = Inr st
           \<and> writes (trace st) = [[1, 2]])
      \<and> (\<exists>st. consume 0 buffer2 [Item (1 :: nat), FlushReq, Item 2, Item 3, CloseReq] = Inr st
           \<and> concat (writes (trace st)) = [1, 2, 3])
      \<and> (\<exists>s' st'. push_all 0 (fresh [OptSize 2, OptFlusher (Some ())]) [1, 2 :: nat]
                    = ([Returned None, Returned None], s')
           \<and> worker s' = Some (Writing st') \<and> writes (trace st') = [[1, 2]])"
    unfolding rep by auto
  with buffer2_valid l r n show ?thesis by blast
qed


text \<open>
  C10. On a validated buffer (so \<open>Size\<close> is at least one), whatever events the worker
  receives, it does not fault, and every batch it hands to \<^verbatim>\<open>Write\<close> has at least one
  and at most \<open>Size\<close> items.
\<close>

theorem C10_batches_never_empty:
  assumes "validateBuffer b = None" "receivable b evs"
  shows "1 \<le> Size b
       \<and> (\<exists>st. consume z b evs = Inr st
             \<and> (\<forall>batch \<in> set (writes (trace st)). 1 \<le> length batch \<and> length batch \<le> Size b))"
proof -
  from consume_ok[OF assms, of z] obtain st where
    "consume z b evs = Inr st" "\<forall>x \<in> set (writes (trace st)). sized b x"
    by blast
  moreover have "1 \<le> Size b" using assms(1) by (simp add: valid_iff)
  ultimately show ?thesis by (auto simp: sized_def)
qed


text \<open>
  C8. On a validated buffer, in every state the worker reaches the pending batch has at
  most \<open>Size\<close> items and the slice has length \<open>Size\<close>; every event it can receive
  keeps this so, both right after the \<^verbatim>\<open>select\<close> and at the end of the turn, and a
  turn that flushes ends with an empty batch in a new slice of \<open>Size\<close> zero values.
\<close>

theorem C8_pending_batch_bounded:
  assumes "validateBuffer b = None" "receivable b evs"
  shows "\<exists>st. consume z b evs = Inr st \<and> count st \<le> Size b \<and> length (items st) = Size b
           \<and> (\<forall>ev. receivable b [ev] \<longrightarrow>
                 (\<exists>st1 st'. select_case st ev = Inr st1 \<and> count st1 \<le> Size b
                    \<and> length (items st1) = Size b
                    \<and> iteration z b st ev = Inr st' \<and> count st' \<le> Size b
                    \<and> length (items st') = Size b
                    \<and> (mustFlush st1 \<longrightarrow>
                          count st' = 0 \<and> pending st' = []
                          \<and> items st' = replicate (Size b) z)))"
proof -
  from consume_ok[OF assms, of z] obtain st where
    c: "consume z b evs = Inr st" "loop_inv b st"
    by blast
  have "\<exists>st1 st'. select_case st ev = Inr st1 \<and> count st1 \<le> Size b
          \<and> length (items st1) = Size b
          \<and> iteration z b st ev = Inr st' \<and> count st' \<le> Size b
          \<and> length (items st') = Size b
          \<and> (mustFlush st1 \<longrightarrow>
                count st' = 0 \<and> pending st' = [] \<and> items st' = replicate (Size b) z)"
    if r: "receivable b [ev]" for ev
  proof -
    from select_case_ok[OF c(2) r] obtain st1 where
      s: "select_case st ev = Inr st1" "count st1 \<le> length (items st1)"
         "length (items st1) = Size b"
      by blast
    from iteration_ok[OF assms(1) c(2) r, of z] obtain st' where
      i: "iteration z b st ev = Inr st'" "loop_inv b st'"
      by blast
    have f: "count st' = 0 \<and> pending st' = [] \<and> items st' = replicate (Size b) z"
      if "mustFlush st1"
      using iteration_flush[OF assms(1) c(2) r s(1) that, of z] i(1) by auto
    show ?thesis
      using s i f by (auto simp: loop_inv_def)
  qed
  with c show ?thesis by (auto simp: loop_inv_def)
qed

theorem C10_batches_never_empty_witness:
  "validateBuffer buffer2_ticking = None
   \<and> receivable buffer2_ticking
        [Tick, FlushReq, Item (7 :: nat), Tick, Item 8, Item 9, Item 10, FlushReq, CloseReq]
   \<and> (\<exists>st. consume 0 buffer2_ticking
               [Tick, FlushReq, Item (7 :: nat), Tick, Item 8, Item 9, Item 10, FlushReq,
                CloseReq] = Inr st
         \<and> list_all (\<lambda>batch. 1 \<le> length batch \<and> length batch \<le> 2) (writes (trace st)))"
proof -
  let ?evs = "[Tick, FlushReq, Item (7 :: nat), Tick, Item 8, Item 9, Item 10, FlushReq, CloseReq]"
  have r: "receivable buffer2_ticking ?evs"
    by (simp add: receivable_def buffer2_ticking_fields)
  from C10_batches_never_empty [OF buffer2_ticking_valid r, of 0]
  have "\<exists>st. consume 0 buffer2_ticking ?evs = Inr st
         \<and> list_all (\<lambda>batch. 1 \<le> length batch \<and> length batch \<le> 2) (writes (trace st))"
    by (simp add: list_all_iff buffer2_ticking_fields)
  with buffer2_ticking_valid r show ?thesis by blast
qed

theorem C8_pending_batch_bounded_witness:
  "validateBuffer buffer2 = None
   \<and> receivable buffer2 [Item (4 :: nat), Item 5, Item 6]
   \<and> receivable buffer2 [Item (7 :: nat)]
   \<and> (\<exists>st. consume 0 buffer2 [Item (4 :: nat), Item 5, Item 6] = Inr st
         \<and> count st \<le> 2 \<and> length (items st) = 2
         \<and> (\<exists>st1 st'. select_case st (Item 7) = Inr st1 \<and> count st1 \<le> 2
               \<and> iteration 0 buffer2 st (Item 7) = Inr st' \<and> count st' \<le> 2))"
proof -
  have r: "receivable buffer2 [Item (4 :: nat), Item 5, Item 6]"
    and r': "receivable buffer2 [Item (7 :: nat)]"
    by (simp_all add: receivable_def)
  from C8_pending_batch_bounded [OF buffer2_valid r, of 0] r'
  have "\<exists>st. consume 0 buffer2 [Item (4 :: nat), Item 5, Item 6] = Inr st
         \<and> count st \<le> 2 \<and> length (items st) = 2
         \<and> (\<exists>st1 st'. select_case st (Item 7) = Inr st1 \<and> count st1 \<le> 2
               \<and> iteration 0 buffer2 st (Item 7) = Inr st' \<and> count st' \<le> 2)"
    unfolding buffer2_fields by blast
  with buffer2_valid r r' show ?thesis by blast
qed


text \<open>
  C3. On a validated buffer whose worker is still open, a close request makes the worker
  write the pending batch once if it is not empty, and nothing if it is empty; the close
  of \<^verbatim>\<open>doneCh\<close> is the last effect, after the write, and happens once; events after
  the close request are not received. While the worker is in that last write
  \<^verbatim>\<open>doneCh\<close> is still open; it is closed once the sink has returned and the worker has
  left. With \<open>Size\<close> 2, one item and then a close request give the single batch with
  that item, and so do one \<open>Push\<close> and one \<open>Close\<close> on a new buffer.
\<close>

theorem C3_close_flushes_then_signals:
  fixes z :: 'a and b :: "'f Buffer" and opts :: "'f Option list" and s :: "('a, 'f) system"
  assumes "validateBuffer b = None" "receivable b evs" "CloseReq \<notin> set evs"
  shows "(\<exists>st st' es. consume z b evs = Inr st \<and> isOpen st
            \<and> consume z b (evs @ [CloseReq]) = Inr st' \<and> \<not> isOpen st'
            \<and> trace st' = trace st @ es @ [CloseDone]
            \<and> writes es = (if pending st = [] then [] else [pending st])
            \<and> CloseDone \<notin> set (trace st) \<and> CloseDone \<notin> set es
            \<and> (\<forall>more. consume z b (evs @ CloseReq # more) = Inr st'))
       \<and> (Size b = 2 \<longrightarrow>
            (\<exists>st es. consume z b [Item x, CloseReq] = Inr st
               \<and> trace st = es @ [CloseDone] \<and> writes es = [[x]]))
       \<and> (waiting s st \<longrightarrow>
            (if pending st = [] then closed (buf (worker_receives s CloseReq))
             else \<not> closed (buf (worker_receives s CloseReq))
               \<and> (\<exists>st2. worker (worker_receives s CloseReq) = Some (Writing st2)
                      \<and> writes (trace st2) = writes (trace st) @ [pending st]))
            \<and> closed (buf (sink_returns z (worker_receives s CloseReq)))
            \<and> (\<exists>st3. worker (sink_returns z (worker_receives s CloseReq)) = Some (Exited st3)
                   \<and> writes (trace st3)
                       = writes (trace st) @ (if pending st = [] then [] else [pending st])))
       \<and> (New opts = b \<and> Size b = 2 \<longrightarrow>
            (\<exists>s1 s2 st. Push z (fresh opts) x Handoff = (Returned None, [Sent], s1)
               \<and> Close z s1 Handoff Handoff = (Returned None, [Sent, Received], s2)
               \<and> worker s2 = Some (Exited st) \<and> writes (trace st) = [[x]]))"
proof -
  have general: "\<exists>st st' es. consume z b evs = Inr st \<and> isOpen st
            \<and> run z b (projr (consume_start z b)) evs = Inr st
            \<and> consume z b (evs @ [CloseReq]) = Inr st' \<and> \<not> isOpen st'
            \<and> trace st' = trace st @ es @ [CloseDone]
            \<and> writes es = (if pending st = [] then [] else [pending st])
            \<and> CloseDone \<notin> set (trace st) \<and> CloseDone \<notin> set es
            \<and> (\<forall>more. consume z b (evs @ CloseReq # more) = Inr st')"
    if rcv: "receivable b evs" and nc: "CloseReq \<notin> set evs" for evs
  proof -
    from reach_open[OF assms(1) rcv nc, of z] obtain st0 st where
      r: "consume_start z b = Inr st0" "run z b st0 evs = Inr st" "consume z b evs = Inr st"
         "loop_inv b st" "isOpen st" "CloseDone \<notin> set (trace st)"
      by blast
    from close_step[OF assms(1) r(4), of z] obtain st1 es where
      c: "iteration z b st CloseReq = Inr st1" "\<not> isOpen st1" "loop_inv b st1"
         "trace st1 = trace st @ es" "CloseDone \<notin> set es"
         "writes es = (if pending st = [] then [] else [pending st])"
      by blast
    let ?es = "es @ call_stop (stopTicker st1)"
    have run_more: "run z b st0 (evs @ CloseReq # more) = Inr st1" for more
      using r(2,5) c(1,2) by (simp add: run_append run_closed)
    have cons_more: "consume z b (evs @ CloseReq # more) = Inr (consume_exit st1)" for more
      using r(1) run_more[of more] c(2) by (simp add: consume_def)
    have t: "trace (consume_exit st1) = trace st @ ?es @ [CloseDone]"
      using c(4) by (simp add: consume_exit_def)
    have "CloseDone \<notin> set ?es" using c(5) by (simp add: call_stop_no_done)
    moreover have "writes ?es = (if pending st = [] then [] else [pending st])"
      using c(6) by (simp add: writes_append writes_call_stop)
    moreover have "\<not> isOpen (consume_exit st1)" using c(2) by (simp add: consume_exit_def)
    ultimately show ?thesis
      using r(1,2,3,5,6) cons_more t by (intro exI[of _ st] exI[of _ "consume_exit st1"] exI[of _ ?es]) simp
  qed
  have two: "\<exists>st es. consume z b [Item x, CloseReq] = Inr st
               \<and> trace st = es @ [CloseDone] \<and> writes es = [[x]]" if sz: "Size b = 2"
  proof -
    have rcv: "receivable b [Item x]" and nc: "CloseReq \<notin> set [Item x]"
      by (simp_all add: receivable_def)
    from general[OF rcv nc] obtain st st' es where
      g: "consume z b [Item x] = Inr st" "run z b (projr (consume_start z b)) [Item x] = Inr st"
         "consume z b ([Item x] @ [CloseReq]) = Inr st'"
         "trace st' = trace st @ es @ [CloseDone]"
         "writes es = (if pending st = [] then [] else [pending st])"
      by blast
    from consume_start_ok[OF assms(1), of z] obtain st0 where
      s: "consume_start z b = Inr st0" "loop_inv b st0" "isOpen st0" "count st0 = 0"
         "writes (trace st0) = []"
      by blast
    have below: "count st0 + length [x] < Size b" using s(4) sz by simp
    from run_items_below[OF s(2,3) below, of z] obtain st1 where
      r: "run z b st0 (map Item [x]) = Inr st1" "trace st1 = trace st0"
         "pending st1 = pending st0 @ [x]"
      by blast
    have "st1 = st" using r(1) g(2) s(1) by simp
    moreover have "pending st0 = []" using s(4) by (simp add: pending_def)
    ultimately have "pending st = [x]" "writes (trace st) = []" using r s(5) by simp_all
    with g(3,4,5) show ?thesis
      by (intro exI[of _ st'] exI[of _ "trace st @ es"]) (simp add: writes_append)
  qed
  have sys: "(if pending st = [] then closed (buf (worker_receives s CloseReq))
             else \<not> closed (buf (worker_receives s CloseReq))
               \<and> (\<exists>st2. worker (worker_receives s CloseReq) = Some (Writing st2)
                      \<and> writes (trace st2) = writes (trace st) @ [pending st]))
            \<and> closed (buf (sink_returns z (worker_receives s CloseReq)))
            \<and> (\<exists>st3. worker (sink_returns z (worker_receives s CloseReq)) = Some (Exited st3)
                   \<and> writes (trace st3)
                       = writes (trace st) @ (if pending st = [] then [] else [pending st]))"
    if w: "waiting s st"
  proof -
    from w have inv: "loop_inv (buf s) st" and d: "doneCh (buf s) = OpenChan"
      by (simp_all add: waiting_def)
    have pe: "(pending st = []) = (count st = 0)" using inv by (rule pending_empty)
    from close_exit[OF w, of z] obtain st3 where
      e: "worker (sink_returns z (worker_receives s CloseReq)) = Some (Exited st3)"
         "buf (sink_returns z (worker_receives s CloseReq)) = (buf s)\<lparr>doneCh := ClosedChan\<rparr>"
         "writes (trace st3)
            = writes (trace st) @ (if pending st = [] then [] else [pending st])"
      by blast
    have "if pending st = [] then closed (buf (worker_receives s CloseReq))
          else \<not> closed (buf (worker_receives s CloseReq))
            \<and> (\<exists>st2. worker (worker_receives s CloseReq) = Some (Writing st2)
                   \<and> writes (trace st2) = writes (trace st) @ [pending st])"
      using pe d
      by (simp add: receives_close[OF w] closed_def writes_append writes_call_stop)
    moreover have "closed (buf (sink_returns z (worker_receives s CloseReq)))"
      using e(2) by (simp add: closed_def)
    ultimately show ?thesis using e(1,3) by blast
  qed
  have facade: "\<exists>s1 s2 st. Push z (fresh opts) x Handoff = (Returned None, [Sent], s1)
               \<and> Close z s1 Handoff Handoff = (Returned None, [Sent, Received], s2)
               \<and> worker s2 = Some (Exited st) \<and> writes (trace st) = [[x]]"
    if n: "New opts = b" and sz: "Size b = 2"
  proof -
    have v: "validateBuffer (New opts) = None" using assms(1) n by simp
    from Push_fresh[OF v, of z x] obtain s0 st0 where
      p: "waiting s0 st0" "pending st0 = []" "writes (trace st0) = []"
         "buf s0 = (New opts)\<lparr>dataCh := OpenChan, flushCh := OpenChan,
                   closeCh := OpenChan, doneCh := OpenChan\<rparr>"
         "Push z (fresh opts) x Handoff = (Returned None, [Sent], worker_receives s0 (Item x))"
      by blast
    have "loop_inv (buf s0) st0" using p(1) by (simp add: waiting_def)
    then have "count st0 = 0" using p(2) by (simp add: pending_empty)
    then have ne: "Suc (count st0) \<noteq> Size (buf s0)" using p(4) n sz by simp
    from after_item[OF p(1), of x] ne obtain st1 where
      a: "waiting (worker_receives s0 (Item x)) st1" "trace st1 = trace st0"
         "pending st1 = pending st0 @ [x]"
      by auto
    from Close_waiting_ok[OF a(1), of z] obtain s2 st2 where
      "Close z (worker_receives s0 (Item x)) Handoff Handoff
         = (Returned None, [Sent, Received], s2)"
      "worker s2 = Some (Exited st2)"
      "writes (trace st2)
         = writes (trace st1) @ (if pending st1 = [] then [] else [pending st1])"
      by blast
    with p(2,3,5) a(2,3) show ?thesis by auto
  qed
  from general[OF assms(2,3)] two sys facade show ?thesis by blast
qed

theorem C3_close_flushes_then_signals_witness:
  "validateBuffer buffer2 = None
   \<and> receivable buffer2 [Item (1 :: nat)]
   \<and> CloseReq \<notin> set [Item (1 :: nat)]
   \<and> Size buffer2 = 2
   \<and> New [OptSize 2, OptFlusher (Some ())] = buffer2
   \<and> (\<exists>st. waiting pushed_one st)
   \<and> (\<exists>st es. consume 0 buffer2 [Item (1 :: nat), CloseReq] = Inr st
         \<and> trace st = es @ [CloseDone] \<and> writes es = [[1]])
   \<and> \<not> closed (buf (worker_receives pushed_one CloseReq))
   \<and> closed (buf (sink_returns 0 (worker_receives pushed_one CloseReq)))
   \<and> (\<exists>s1 s2 st. Push (0 :: nat) (fresh [OptSize 2, OptFlusher (Some ())]) 1 Handoff
                    = (Returned None, [Sent], s1)
         \<and> Close 0 s1 Handoff Handoff = (Returned None, [Sent, Received], s2)
         \<and> worker s2 = Some (Exited st) \<and> writes (trace st) = [[1]])"
proof -
  have r: "receivable buffer2 [Item (1 :: nat)]" and n: "CloseReq \<notin> set [Item (1 :: nat)]"
    by (simp_all add: receivable_def)
  from pushed_one_waiting obtain st where
    w: "waiting pushed_one st" and p: "pending st = [1]"
    by blast
  note c3 = C3_close_flushes_then_signals [OF buffer2_valid r n, where z = 0 and x = 1
      and s = pushed_one and st = st and opts = "[OptSize 2, OptFlusher (Some ())]"]
  from c3 buffer2_fields(1)
  have a: "\<exists>st es. consume 0 buffer2 [Item (1 :: nat), CloseReq] = Inr st
         \<and> trace st = es @ [CloseDone] \<and> writes es = [[1]]"
    by blast
  from c3 w p
  have b: "\<not> closed (buf (worker_receives pushed_one CloseReq))"
    and c: "closed (buf (sink_returns 0 (worker_receives pushed_one CloseReq)))"
    by auto
  from c3 New2 buffer2_fields(1)
  have d: "\<exists>s1 s2 st. Push (0 :: nat) (fresh [OptSize 2, OptFlusher (Some ())]) 1 Handoff
                    = (Returned None, [Sent], s1)
         \<and> Close 0 s1 Handoff Handoff = (Returned None, [Sent, Received], s2)
         \<and> worker s2 = Some (Exited st) \<and> writes (trace st) = [[1]]"
    by blast
  from buffer2_valid r n buffer2_fields(1) New2 w a b c d show ?thesis by blast
qed


text \<open>
  C7. On a validated buffer, in every open state the worker reaches: a tick with an empty
  pending batch leaves the state as it is, so nothing is written; a turn flushes exactly
  when an item fills the batch, or a tick, a flush request or a close request finds it
  not empty; and every turn that flushes stops the current ticker, writes the batch and
  then makes a new ticker with the configured interval, which becomes the current one.
  With no interval configured there is no ticker, and the turn only writes.
\<close>

theorem C7_timer_restarts_after_flush:
  assumes "validateBuffer b = None" "receivable b evs" "CloseReq \<notin> set evs"
  shows "\<exists>st. consume z b evs = Inr st \<and> isOpen st
           \<and> (FlushInterval b \<noteq> 0 \<and> pending st = [] \<longrightarrow> iteration z b st Tick = Inr st)
           \<and> (\<forall>ev st1. receivable b [ev] \<and> select_case st ev = Inr st1 \<longrightarrow>
                 mustFlush st1
                   = (case ev of Item x \<Rightarrow> Suc (count st) = Size b | _ \<Rightarrow> 0 < count st))
           \<and> (\<forall>ev st1. receivable b [ev] \<and> select_case st ev = Inr st1 \<and> mustFlush st1 \<longrightarrow>
                 (\<exists>st'. iteration z b st ev = Inr st'
                    \<and> (if FlushInterval b = 0
                        then ticker st = None \<and> ticker st' = None
                          \<and> trace st' = trace st @ [Write (pending st1)]
                        else \<exists>k. ticker st = Some k \<and> ticker st' = Some (Suc k)
                          \<and> stopTicker st' = Some (Suc k)
                          \<and> trace st' = trace st @ [TickerStop k, Write (pending st1),
                               TickerNew (Suc k) (FlushInterval b)])))"
proof -
  from reach_open[OF assms, of z] obtain st where
    r: "consume z b evs = Inr st" "loop_inv b st" "isOpen st"
    by blast
  have a: "iteration z b st Tick = Inr st" if "FlushInterval b \<noteq> 0" "pending st = []"
    using that r(2) tick_idle[OF r(2), of z] by (simp add: pending_empty)
  have m: "mustFlush st1 = (case ev of Item x \<Rightarrow> Suc (count st) = Size b | _ \<Rightarrow> 0 < count st)"
    if "receivable b [ev]" "select_case st ev = Inr st1" for ev st1
    using select_case_ok[OF r(2) that(1)] that(2) by auto
  have f: "\<exists>st'. iteration z b st ev = Inr st'
             \<and> (if FlushInterval b = 0
                 then ticker st = None \<and> ticker st' = None
                   \<and> trace st' = trace st @ [Write (pending st1)]
                 else \<exists>k. ticker st = Some k \<and> ticker st' = Some (Suc k)
                   \<and> stopTicker st' = Some (Suc k)
                   \<and> trace st' = trace st @ [TickerStop k, Write (pending st1),
                        TickerNew (Suc k) (FlushInterval b)])"
    if "receivable b [ev]" "select_case st ev = Inr st1" "mustFlush st1" for ev st1
  proof -
    from iteration_flush[OF assms(1) r(2) that, of z] obtain st' where
      i: "iteration z b st ev = Inr st'"
         "trace st' = trace st @ call_stop (ticker st) @ [Write (pending st1)]
               @ (if FlushInterval b = 0 then [] else [TickerNew (made st) (FlushInterval b)])"
         "ticker st' = (if FlushInterval b = 0 then None else Some (made st))"
         "stopTicker st' = ticker st'"
      by blast
    show ?thesis
    proof (cases "FlushInterval b = 0")
      case True
      then have "ticker st = None" using r(2) by (auto simp: loop_inv_def split: option.splits)
      with True i show ?thesis by (simp add: call_stop_def)
    next
      case False
      then obtain k where "ticker st = Some k" "made st = Suc k"
        using r(2) by (auto simp: loop_inv_def split: option.splits)
      with False i show ?thesis by (simp add: call_stop_def)
    qed
  qed
  from r(1,3) a m f show ?thesis by blast
qed

theorem C7_timer_restarts_after_flush_witness:
  "validateBuffer buffer2_ticking = None
   \<and> receivable buffer2_ticking [Item (3 :: nat), Tick]
   \<and> CloseReq \<notin> set [Item (3 :: nat), Tick]
   \<and> FlushInterval buffer2_ticking \<noteq> 0
   \<and> (\<exists>st. consume 0 buffer2_ticking [Item (3 :: nat), Tick] = Inr st
         \<and> pending st = [] \<and> iteration 0 buffer2_ticking st Tick = Inr st
         \<and> trace st = [TickerNew 0 5, TickerStop 0, Write [3], TickerNew 1 5])"
proof -
  have r: "receivable buffer2_ticking [Item (3 :: nat), Tick]"
    and n: "CloseReq \<notin> set [Item (3 :: nat), Tick]"
    and i: "FlushInterval buffer2_ticking \<noteq> 0"
    by (simp_all add: receivable_def buffer2_ticking_fields)
  have c: "consume 0 buffer2_ticking [Item (3 :: nat), Tick]
         = Inr \<lparr>count = 0, items = [0, 0], mustFlush = False, ticker = Some 1,
                stopTicker = Some 1, isOpen = True, made = 2,
                trace = [TickerNew 0 5, TickerStop 0, Write [3], TickerNew 1 5]\<rparr>"
    by (simp add: consume_def consume_start_def newTicker_def buffer2_ticking_fields
        iteration_def flush_def flush_call_def flush_return_def call_stop_def
        numeral_2_eq_2)
  from C7_timer_restarts_after_flush [OF buffer2_ticking_valid r n, of 0] i c
  have "\<exists>st. consume 0 buffer2_ticking [Item (3 :: nat), Tick] = Inr st
         \<and> pending st = [] \<and> iteration 0 buffer2_ticking st Tick = Inr st
         \<and> trace st = [TickerNew 0 5, TickerStop 0, Write [3], TickerNew 1 5]"
    by (auto simp: pending_def)
  with buffer2_ticking_valid r n i show ?thesis by blast
qed


text \<open>
  C6, as amended. Validation checks the six rules in a fixed order (size, flusher, interval,
  push, flush and close timeout) and stops at the first that fails: its outcome is the
  error of the first violated rule, and it succeeds exactly when no rule is violated. Any
  single violated rule makes validation fail, and a failed validation aborts
  initialisation: \<open>initialize\<close> returns the error, and \<open>Push\<close> on a buffer not yet
  initialised returns it without a wait, with no channel made and no worker started; on
  valid options \<open>initialize\<close> starts the worker.
\<close>

theorem C6_first_failing_rule_only:
  fixes options :: "'f Buffer" and s :: "('a, 'f) system" and opts :: "'f Option list"
  shows "validateBuffer options = first_violation options
       \<and> (validateBuffer options = None) = (validate_independent options = [])
       \<and> (violated r options \<longrightarrow> validateBuffer options \<noteq> None)
       \<and> (validateBuffer (buf s) = Some err \<longrightarrow>
            initialize z s = Inl err
            \<and> (\<not> IsIntialized (buf s) \<longrightarrow> Push z s item sch = (Returned (Some err), [], s)))
       \<and> (validateBuffer (buf s) = None \<longrightarrow>
            (\<exists>s' st. initialize z s = Inr s' \<and> worker s' = Some (Selecting st)))
       \<and> (validateBuffer (New opts) = Some err \<longrightarrow>
            Push z (fresh opts :: ('a, 'f) system) item sch
              = (Returned (Some err), [], fresh opts)
            \<and> worker (fresh opts :: ('a, 'f) system) = None
            \<and> \<not> IsIntialized (buf (fresh opts :: ('a, 'f) system)))"
proof -
  have a: "validateBuffer options = first_violation options"
    by (simp add: validateBuffer_def first_violation_def validate_independent_def rules_def)
  then have b: "(validateBuffer options = None) = (validate_independent options = [])"
    by (simp add: first_violation_def split: list.splits)
  have c: "violated r options \<longrightarrow> validateBuffer options \<noteq> None"
    by (simp add: violated_invalid)
  have d: "initialize z s = Inl err
        \<and> (\<not> IsIntialized (buf s) \<longrightarrow> Push z s item sch = (Returned (Some err), [], s))"
    if "validateBuffer (buf s) = Some err"
    using that by (simp add: initialize_invalid Push_invalid)
  have e: "\<exists>s' st. initialize z s = Inr s' \<and> worker s' = Some (Selecting st)"
    if v: "validateBuffer (buf s) = None"
  proof -
    from initialize_ok[OF v, of z] obtain s0 st0 where
      "initialize z s = Inr s0" "waiting s0 st0"
      by blast
    then show ?thesis by (auto simp: waiting_def)
  qed
  have f: "Push z (fresh opts :: ('a, 'f) system) item sch
              = (Returned (Some err), [], fresh opts)
            \<and> worker (fresh opts :: ('a, 'f) system) = None
            \<and> \<not> IsIntialized (buf (fresh opts :: ('a, 'f) system))"
    if v: "validateBuffer (New opts) = Some err"
  proof -
    have v': "validateBuffer (buf (fresh opts :: ('a, 'f) system)) = Some err"
      using v by (simp add: fresh_def)
    have n: "\<not> IsIntialized (buf (fresh opts :: ('a, 'f) system))"
      by (simp add: fresh_def IsIntialized_def New_chans)
    from Push_invalid[OF v' n, of z item sch] n show ?thesis
      by (simp add: fresh_def)
  qed
  from a b c d e f show ?thesis by blast
qed

theorem C6_first_failing_rule_only_witness:
  "validateBuffer (New [] :: unit Buffer) = first_violation (New [] :: unit Buffer)
   \<and> first_violation (New [] :: unit Buffer) = Some (ErrorString ''size cannot be zero'')
   \<and> violated RuleFlusher (New [OptSize 1] :: unit Buffer)
   \<and> validateBuffer (New [OptSize 1] :: unit Buffer) \<noteq> None
   \<and> validateBuffer (buf (fresh [] :: (nat, unit) system))
       = Some (ErrorString ''size cannot be zero'')
   \<and> initialize 0 (fresh [] :: (nat, unit) system) = Inl (ErrorString ''size cannot be zero'')
   \<and> Push 0 (fresh [] :: (nat, unit) system) 1 Handoff
       = (Returned (Some (ErrorString ''size cannot be zero'')), [], fresh [])
   \<and> (\<exists>s' st. initialize 0 (fresh [OptSize 2, OptFlusher (Some ())] :: (nat, unit) system)
                 = Inr s' \<and> worker s' = Some (Selecting st))"
proof -
  have v0: "validateBuffer (New [] :: unit Buffer) = Some (ErrorString ''size cannot be zero'')"
    by (simp add: New_def validateBuffer_def invalidSize_def)
  then have vf: "validateBuffer (buf (fresh [] :: (nat, unit) system))
       = Some (ErrorString ''size cannot be zero'')"
    by (simp add: fresh_def)
  have vi: "violated RuleFlusher (New [OptSize 1] :: unit Buffer)"
    by (simp add: New_def WithSize_def)
  have v2: "validateBuffer (buf (fresh [OptSize 2, OptFlusher (Some ())] :: (nat, unit) system))
       = None"
    using buffer2_valid by (simp add: fresh_def New2)
  note t0 = C6_first_failing_rule_only [where options = "New [] :: unit Buffer"
      and s = "fresh [] :: (nat, unit) system" and z = 0 and item = 1 and sch = Handoff
      and err = "ErrorString ''size cannot be zero''" and opts = "[]"]
  note t1 = C6_first_failing_rule_only [where options = "New [OptSize 1] :: unit Buffer" and r = RuleFlusher
      and s = "fresh [OptSize 2, OptFlusher (Some ())] :: (nat, unit) system" and z = 0]
  from t0 v0 have a: "validateBuffer (New [] :: unit Buffer) = first_violation (New [] :: unit Buffer)"
    and b: "first_violation (New [] :: unit Buffer) = Some (ErrorString ''size cannot be zero'')"
    by simp_all
  from t0 vf have c: "initialize 0 (fresh [] :: (nat, unit) system)
       = Inl (ErrorString ''size cannot be zero'')"
    by blast
  from t0 v0 have d: "Push 0 (fresh [] :: (nat, unit) system) 1 Handoff
       = (Returned (Some (ErrorString ''size cannot be zero'')), [], fresh [])"
    by blast
  from t1 vi have e: "validateBuffer (New [OptSize 1] :: unit Buffer) \<noteq> None"
    by blast
  from t1 v2 have f: "\<exists>s' st. initialize 0
        (fresh [OptSize 2, OptFlusher (Some ())] :: (nat, unit) system)
                 = Inr s' \<and> worker s' = Some (Selecting st)"
    by blast
  from a b vi e vf c d f show ?thesis by blast
qed


text \<open>
  C6 as stated fails: on the buffer that \<open>New\<close> returns without options both the size
  rule and the flusher rule are violated, yet validation reports the size rule only, and
  its outcome is the same whether a flusher is set or not.
\<close>

theorem C6_independent_checks_counterexample:
  "violated RuleFlusher (New [] :: unit Buffer)
   \<and> \<not> reports (validateBuffer (New [] :: unit Buffer)) RuleFlusher
   \<and> validateBuffer (New [] :: unit Buffer) = Some (ErrorString ''size cannot be zero'')
   \<and> validate_independent (New [] :: unit Buffer)
       = [ErrorString ''size cannot be zero'', ErrorString ''flusher cannot be nil'']
   \<and> validateBuffer (New [OptFlusher (Some ())]) = validateBuffer (New [] :: unit Buffer)"
  by (simp add: New_def validateBuffer_def validate_independent_def rules_def reports_def
      invalidSize_def invalidFlusher_def WithFlusher_def second_def)


text \<open>
  C9. On a buffer as \<open>New\<close> returns it, with any options, valid or not, and under any
  schedule, \<open>Flush\<close> and \<open>Close\<close> each go through one wait that lasts the whole
  configured timeout and return an error that wraps \<open>ErrTimeout\<close> and not
  \<open>ErrClosed\<close>; the buffer is left as it was: not initialised, without a worker.
\<close>

theorem C9_uninitialised_flush_close_time_out:
  "Flush (fresh opts :: ('a, 'f) system) sch
     = (Returned (Some (Join (ErrorString ''failed to flush buffer within flush timeout'')
                          ErrTimeout)),
        [TimedOut (FlushTimeout (New opts))], fresh opts)
   \<and> Close z (fresh opts :: ('a, 'f) system) sch1 sch2
     = (Returned (Some (Join (ErrorString ''failed to close buffer within close timeout'')
                          ErrTimeout)),
        [TimedOut (CloseTimeout (New opts))], fresh opts)
   \<and> Is (Join (ErrorString ''failed to flush buffer within flush timeout'') ErrTimeout) ErrTimeout
   \<and> Is (Join (ErrorString ''failed to close buffer within close timeout'') ErrTimeout) ErrTimeout
   \<and> \<not> Is (Join (ErrorString ''failed to flush buffer within flush timeout'') ErrTimeout) ErrClosed
   \<and> \<not> Is (Join (ErrorString ''failed to close buffer within close timeout'') ErrTimeout) ErrClosed
   \<and> \<not> IsIntialized (buf (fresh opts :: ('a, 'f) system))
   \<and> worker (fresh opts :: ('a, 'f) system) = None"
  by (simp add: Flush_def Close_def closed_def try_send_def fresh_def New_chans IsIntialized_def)

theorem C9_uninitialised_flush_close_time_out_witness:
  "validateBuffer (New [] :: unit Buffer) = Some (ErrorString ''size cannot be zero'')
   \<and> Flush (fresh [] :: (nat, unit) system) Handoff
     = (Returned (Some (Join (ErrorString ''failed to flush buffer within flush timeout'')
                          ErrTimeout)),
        [TimedOut 1000000000], fresh [])
   \<and> Close 0 (fresh [] :: (nat, unit) system) Handoff Handoff
     = (Returned (Some (Join (ErrorString ''failed to close buffer within close timeout'')
                          ErrTimeout)),
        [TimedOut 1000000000], fresh [])"
  using C9_uninitialised_flush_close_time_out [of "[] :: unit Option list" Handoff "0 :: nat" Handoff Handoff]
  by (simp add: New_def validateBuffer_def invalidSize_def second_def)


text \<open>
  C5. After a \<open>Close\<close> that returned no error, \<^verbatim>\<open>doneCh\<close> is closed, and every
  \<open>Push\<close>, \<open>Flush\<close> and \<open>Close\<close> returns \<open>ErrClosed\<close> under any schedule, without
  entering a wait and without changing the buffer.
\<close>

theorem C5_closed_after_successful_close:
  assumes "Close z s sch1 sch2 = (Returned None, ws, s')"
  shows "closed (buf s')
       \<and> Push z s' x sch = (Returned (Some ErrClosed), [], s')
       \<and> Flush s' sch = (Returned (Some ErrClosed), [], s')
       \<and> Close z s' sch3 sch4 = (Returned (Some ErrClosed), [], s')"
proof -
  from Close_success[OF assms] have c: "closed (buf s')" and d: "IsIntialized (buf s')"
    by (simp_all add: IsIntialized_def)
  show ?thesis
    using c Push_closed[OF c d] Flush_closed[OF c] Close_closed[OF c] by simp
qed

theorem C5_closed_after_successful_close_witness:
  "\<exists>s'. Close 0 pushed_one Handoff Handoff = (Returned None, [Sent, Received], s')
      \<and> closed (buf s')
      \<and> Push 0 s' 2 Handoff = (Returned (Some ErrClosed), [], s')
      \<and> Flush s' Handoff = (Returned (Some ErrClosed), [], s')
      \<and> Close 0 s' Handoff Handoff = (Returned (Some ErrClosed), [], s')"
proof -
  from pushed_one_waiting obtain st where w: "waiting pushed_one st" by blast
  from Close_waiting_ok[OF w, of 0] obtain s' where
    c: "Close 0 pushed_one Handoff Handoff = (Returned None, [Sent, Received], s')"
    by blast
  from C5_closed_after_successful_close [OF c, of 2 Handoff Handoff Handoff] c
  show ?thesis by blast
qed


text \<open>
  C4. On a validated buffer: fewer than \<open>Size\<close> items received from the start and then a
  flush request give one write with exactly those items in order, and no write when there
  were no items; in any open state the worker reaches, the pending batch is shorter than
  \<open>Size\<close> and a flush request writes it once if it is not empty and writes nothing if
  it is empty, and the worker stays open with an empty batch. A \<open>Flush\<close> whose request a
  waiting worker takes returns no error, whether or not anything is pending; with nothing
  pending the buffer and its worker are left as they were.
\<close>

theorem C4_manual_flush:
  fixes z :: 'a and b :: "'f Buffer" and s :: "('a, 'f) system"
  assumes "validateBuffer b = None"
  shows "(length xs < Size b \<longrightarrow>
            (\<exists>st. consume z b (map Item xs @ [FlushReq]) = Inr st \<and> isOpen st
               \<and> pending st = [] \<and> writes (trace st) = (if xs = [] then [] else [xs])))
       \<and> (receivable b evs \<and> CloseReq \<notin> set evs \<longrightarrow>
            (\<exists>st st'. consume z b evs = Inr st \<and> length (pending st) < Size b
               \<and> consume z b (evs @ [FlushReq]) = Inr st' \<and> isOpen st' \<and> pending st' = []
               \<and> writes (trace st')
                   = writes (trace st) @ (if pending st = [] then [] else [pending st])))
       \<and> (waiting s st \<longrightarrow>
            Flush s Handoff = (Returned None, [Sent], worker_receives s FlushReq)
            \<and> effects (worker_receives s FlushReq)
                = effects s @ (if pending st = [] then []
                               else call_stop (ticker st) @ [Write (pending st)])
            \<and> (if pending st = [] then worker_receives s FlushReq = s
                else \<exists>st'. worker (worker_receives s FlushReq) = Some (Writing st')))"
proof (intro conjI impI)
  assume len: "length xs < Size b"
  from consume_start_ok[OF assms, of z] obtain st0 where
    s: "consume_start z b = Inr st0" "loop_inv b st0" "isOpen st0" "count st0 = 0"
       "writes (trace st0) = []"
    by blast
  have below: "count st0 + length xs < Size b" using s(4) len by simp
  have p0: "pending st0 = []" using s(4) by (simp add: pending_def)
  from run_items_below[OF s(2,3) below, of z] obtain st1 where
    r: "run z b st0 (map Item xs) = Inr st1" "loop_inv b st1" "isOpen st1"
       "trace st1 = trace st0" "pending st1 = pending st0 @ xs"
    by blast
  from flush_step[OF assms r(2), of z] obtain st' where
    f: "iteration z b st1 FlushReq = Inr st'" "isOpen st' = isOpen st1" "pending st' = []"
       "writes (trace st')
          = writes (trace st1) @ (if pending st1 = [] then [] else [pending st1])"
    by blast
  have "run z b st0 (map Item xs @ [FlushReq]) = Inr st'"
    using r(1,3) f(1) by (simp add: run_append)
  then have "consume z b (map Item xs @ [FlushReq]) = Inr st'"
    using s(1) f(2) r(3) by (simp add: consume_def)
  with f r s(5) p0
  show "\<exists>st. consume z b (map Item xs @ [FlushReq]) = Inr st \<and> isOpen st
               \<and> pending st = [] \<and> writes (trace st) = (if xs = [] then [] else [xs])"
    by simp
next
  assume "receivable b evs \<and> CloseReq \<notin> set evs"
  then have rcv: "receivable b evs" and nc: "CloseReq \<notin> set evs" by simp_all
  from reach_open[OF assms rcv nc, of z] obtain st0 st where
    r: "consume_start z b = Inr st0" "run z b st0 evs = Inr st" "consume z b evs = Inr st"
       "loop_inv b st" "isOpen st"
    by blast
  from flush_step[OF assms r(4), of z] obtain st' where
    f: "iteration z b st FlushReq = Inr st'" "isOpen st' = isOpen st" "pending st' = []"
       "writes (trace st')
          = writes (trace st) @ (if pending st = [] then [] else [pending st])"
    by blast
  have "run z b st0 (evs @ [FlushReq]) = Inr st'"
    using r(2,5) f(1) by (simp add: run_append)
  then have c: "consume z b (evs @ [FlushReq]) = Inr st'"
    using r(1,5) f(2) by (simp add: consume_def)
  have "length (pending st) < Size b"
    using r(4) by (simp add: pending_def loop_inv_def)
  with r(3,5) c f
  show "\<exists>st st'. consume z b evs = Inr st \<and> length (pending st) < Size b
               \<and> consume z b (evs @ [FlushReq]) = Inr st' \<and> isOpen st' \<and> pending st' = []
               \<and> writes (trace st')
                   = writes (trace st) @ (if pending st = [] then [] else [pending st])"
    by auto
next
  assume w: "waiting s st"
  show "Flush s Handoff = (Returned None, [Sent], worker_receives s FlushReq)"
    using w by (rule Flush_waiting)
next
  assume w: "waiting s st"
  then have inv: "loop_inv (buf s) st" and ws: "worker s = Some (Selecting st)"
    by (simp_all add: waiting_def)
  have pe: "(pending st = []) = (count st = 0)" using inv by (rule pending_empty)
  have st: "stopTicker st = ticker st" using inv by (simp add: loop_inv_def)
  show "effects (worker_receives s FlushReq)
          = effects s @ (if pending st = [] then []
                         else call_stop (ticker st) @ [Write (pending st)])"
    using pe ws st by (simp add: receives_flush[OF w] effects_def)
next
  assume w: "waiting s st"
  then have inv: "loop_inv (buf s) st" by (simp add: waiting_def)
  have pe: "(pending st = []) = (count st = 0)" using inv by (rule pending_empty)
  show "if pending st = [] then worker_receives s FlushReq = s
        else \<exists>st'. worker (worker_receives s FlushReq) = Some (Writing st')"
    using pe by (simp add: receives_flush[OF w])
qed

theorem C4_manual_flush_witness:
  "validateBuffer buffer2 = None
   \<and> length [5 :: nat] < Size buffer2
   \<and> (\<exists>st. consume 0 buffer2 (map Item [5 :: nat] @ [FlushReq]) = Inr st
         \<and> writes (trace st) = [[5]])
   \<and> (\<exists>st. waiting pushed_one st)
   \<and> Flush pushed_one Handoff = (Returned None, [Sent], worker_receives pushed_one FlushReq)
   \<and> effects (worker_receives pushed_one FlushReq) = [Write [1]]"
proof -
  from pushed_one_waiting obtain st where w: "waiting pushed_one st" by blast
  then have st: "st = \<lparr>count = 1, items = [1, 0], mustFlush = False, ticker = None,
                 stopTicker = None, isOpen = True, made = 0, trace = []\<rparr>"
    by (simp add: waiting_def pushed_one_eq)
  have l: "length [5 :: nat] < Size buffer2" by (simp add: buffer2_fields)
  from C4_manual_flush [OF buffer2_valid, of "[5 :: nat]" 0 "[]" pushed_one st] l w
  have "(\<exists>st. consume 0 buffer2 (map Item [5 :: nat] @ [FlushReq]) = Inr st
           \<and> writes (trace st) = [[5]])
      \<and> Flush pushed_one Handoff = (Returned None, [Sent], worker_receives pushed_one FlushReq)
      \<and> effects (worker_receives pushed_one FlushReq) = [Write [1]]"
    by (auto simp: st pending_def effects_def pushed_one_eq call_stop_def)
  with buffer2_valid l w show ?thesis by blast
qed


text \<open>
  C2 as stated fails. One item is pushed on a new buffer of two places. \<open>Close\<close> hands its
  request to the worker, which calls the sink with the item; the sink stalls and the second
  wait of \<open>Close\<close> times out, \<^verbatim>\<open>doneCh\<close> still open. The sink returns, the worker
  leaves its loop and closes \<^verbatim>\<open>doneCh\<close>. The next \<open>Close\<close> returns \<open>ErrClosed\<close>, not
  success.
\<close>

theorem C2_close_after_accepted_timeout_counterexample:
  "fst (Push (0 :: nat) (fresh [OptSize 2, OptFlusher (Some ())]) 1 Handoff) = Returned None
   \<and> fst (Close 0 pushed_one Handoff Expire)
       = Returned (Some (Join (ErrorString ''failed to close buffer within close timeout'')
                           ErrTimeout))
   \<and> fst (snd (Close 0 pushed_one Handoff Expire)) = [Sent, TimedOut 1000000000]
   \<and> effects close_stalled = [Write [1]]
   \<and> \<not> closed (buf close_stalled)
   \<and> effects sink_done = [Write [1], CloseDone]
   \<and> closed (buf sink_done)
   \<and> Close 0 sink_done Handoff Handoff = (Returned (Some ErrClosed), [], sink_done)"
proof -
  from pushed_one_waiting obtain st where w: "waiting pushed_one st" by blast
  have v: "validateBuffer (New [OptSize 2, OptFlusher (Some ())] :: unit Buffer) = None"
    using buffer2_valid by (simp add: New2)
  from Push_fresh[OF v, of "0 :: nat" 1]
  have p: "fst (Push (0 :: nat) (fresh [OptSize 2, OptFlusher (Some ())]) 1 Handoff)
         = Returned None"
    by auto
  have c: "Close 0 pushed_one Handoff Expire
     = (Returned (Some (Join (ErrorString ''failed to close buffer within close timeout'')
                          ErrTimeout)),
        [Sent, TimedOut (CloseTimeout (buf pushed_one))], worker_receives pushed_one CloseReq)"
    using w by (rule Close_accepted_expired)
  have t: "CloseTimeout (buf pushed_one) = 1000000000"
    by (simp add: pushed_one_eq buffer2_fields second_def)
  have d: "closed (buf sink_done)" by (simp add: sink_done_eq closed_def)
  show ?thesis
    using p c t d Close_closed[OF d, of 0 Handoff Handoff]
    by (simp add: close_stalled_eq sink_done_eq effects_def closed_def)
qed


text \<open>
  C2, as amended. \<open>Close\<close> returns \<open>ErrClosed\<close> exactly when \<^verbatim>\<open>doneCh\<close> is closed at the
  call. When the worker is inside the sink, \<open>Close\<close> times out in its first wait, the
  request not taken and the buffer unchanged. What a later \<open>Close\<close> does once the sink
  has returned depends on the flush the worker was in. After an ordinary flush (the worker
  still open) the worker waits again, and a \<open>Close\<close> whose two waits are served succeeds.
  After the last flush of a close request taken earlier (the worker no longer open) the
  worker has left and closed \<^verbatim>\<open>doneCh\<close>, and every later \<open>Close\<close> returns \<open>ErrClosed\<close>.
  When the request is taken and the second wait times out, the worker is in that last
  flush with \<^verbatim>\<open>doneCh\<close> open if a batch was pending; once the sink has returned the
  worker has left, \<^verbatim>\<open>doneCh\<close> is closed, and every later \<open>Close\<close> returns
  \<open>ErrClosed\<close>.
\<close>

theorem C2_close_again_after_timeout:
  fixes z :: 'a and s :: "('a, 'f) system"
  shows "((fst (Close z s scha schb) = Returned (Some ErrClosed)) = closed (buf s))
       \<and> (in_sink s st \<longrightarrow>
            Close z s scha schb
              = (Returned (Some (Join
                   (ErrorString ''failed to close buffer within close timeout'') ErrTimeout)),
                 [TimedOut (CloseTimeout (buf s))], s)
            \<and> (if isOpen st
                then (\<exists>st'. waiting (sink_returns z s) st')
                  \<and> (\<exists>s'. Close z (sink_returns z s) Handoff Handoff
                             = (Returned None, [Sent, Received], s')
                        \<and> closed (buf s'))
                else closed (buf (sink_returns z s))
                  \<and> (\<exists>st'. worker (sink_returns z s) = Some (Exited st'))
                  \<and> Close z (sink_returns z s) schc schd
                      = (Returned (Some ErrClosed), [], sink_returns z s)))
       \<and> (waiting s st \<longrightarrow>
            (\<exists>s1. Close z s Handoff Expire
                     = (Returned (Some (Join
                          (ErrorString ''failed to close buffer within close timeout'')
                          ErrTimeout)),
                        [Sent, TimedOut (CloseTimeout (buf s))], s1)
               \<and> (if pending st = [] then closed (buf s1)
                   else \<not> closed (buf s1)
                     \<and> (\<exists>st2. worker s1 = Some (Writing st2) \<and> in_sink s1 st2
                            \<and> \<not> isOpen st2))
               \<and> closed (buf (sink_returns z s1))
               \<and> (\<exists>st3. worker (sink_returns z s1) = Some (Exited st3))
               \<and> Close z (sink_returns z s1) schc schd
                   = (Returned (Some ErrClosed), [], sink_returns z s1)))"
proof (intro conjI impI)
  show "(fst (Close z s scha schb) = Returned (Some ErrClosed)) = closed (buf s)"
    by (rule Close_ErrClosed_iff)
next
  assume i: "in_sink s st"
  show "Close z s scha schb
          = (Returned (Some (Join
               (ErrorString ''failed to close buffer within close timeout'') ErrTimeout)),
             [TimedOut (CloseTimeout (buf s))], s)"
    using i by (rule Close_in_sink)
next
  assume i: "in_sink s st"
  show "if isOpen st
        then (\<exists>st'. waiting (sink_returns z s) st')
          \<and> (\<exists>s'. Close z (sink_returns z s) Handoff Handoff
                     = (Returned None, [Sent, Received], s')
                \<and> closed (buf s'))
        else closed (buf (sink_returns z s))
          \<and> (\<exists>st'. worker (sink_returns z s) = Some (Exited st'))
          \<and> Close z (sink_returns z s) schc schd
              = (Returned (Some ErrClosed), [], sink_returns z s)"
  proof (cases "isOpen st")
    case True
    with i have w: "writing s st" by (simp add: in_sink_open)
    from sink_returns_open[OF w, of z] obtain st' where
      a: "waiting (sink_returns z s) st'"
      by blast
    from Close_waiting_ok[OF a, of z] obtain s' where
      "Close z (sink_returns z s) Handoff Handoff = (Returned None, [Sent, Received], s')"
      "closed (buf s')"
      by blast
    with True a show ?thesis by auto
  next
    case False
    from sink_returns_leaving[OF i False, of z] obtain st' where
      l: "worker (sink_returns z s) = Some (Exited st')"
         "buf (sink_returns z s) = (buf s)\<lparr>doneCh := ClosedChan\<rparr>"
      by blast
    have d: "closed (buf (sink_returns z s))" using l(2) by (simp add: closed_def)
    from False d l(1) Close_closed[OF d, of z schc schd] show ?thesis by simp
  qed
next
  assume w: "waiting s st"
  let ?s1 = "worker_receives s CloseReq"
  from w have inv: "loop_inv (buf s) st"
    and ch: "validateBuffer (buf s) = None" "dataCh (buf s) = OpenChan"
      "flushCh (buf s) = OpenChan" "closeCh (buf s) = OpenChan" "doneCh (buf s) = OpenChan"
    by (simp_all add: waiting_def)
  have pe: "(pending st = []) = (count st = 0)" using inv by (rule pending_empty)
  from close_exit[OF w, of z] obtain st3 where
    e: "worker (sink_returns z ?s1) = Some (Exited st3)"
       "buf (sink_returns z ?s1) = (buf s)\<lparr>doneCh := ClosedChan\<rparr>"
       "if pending st = [] then ?s1 = sink_returns z ?s1
        else (\<exists>st2. worker ?s1 = Some (Writing st2)) \<and> buf ?s1 = buf s"
    by blast
  have d: "closed (buf (sink_returns z ?s1))" using e(2) by (simp add: closed_def)
  have o: "\<not> closed (buf s)" using w by (simp add: waiting_def closed_def)
  have m: "if pending st = [] then closed (buf ?s1)
           else \<not> closed (buf ?s1)
             \<and> (\<exists>st2. worker ?s1 = Some (Writing st2) \<and> in_sink ?s1 st2 \<and> \<not> isOpen st2)"
  proof (cases "pending st = []")
    case True
    with e(3) d show ?thesis by simp
  next
    case False
    then have "count st \<noteq> 0" using pe by simp
    then show ?thesis
      using False o ch by (simp add: receives_close[OF w] in_sink_def)
  qed
  show "\<exists>s1. Close z s Handoff Expire
                 = (Returned (Some (Join
                      (ErrorString ''failed to close buffer within close timeout'')
                      ErrTimeout)),
                    [Sent, TimedOut (CloseTimeout (buf s))], s1)
           \<and> (if pending st = [] then closed (buf s1)
               else \<not> closed (buf s1)
                 \<and> (\<exists>st2. worker s1 = Some (Writing st2) \<and> in_sink s1 st2
                        \<and> \<not> isOpen st2))
           \<and> closed (buf (sink_returns z s1))
           \<and> (\<exists>st3. worker (sink_returns z s1) = Some (Exited st3))
           \<and> Close z (sink_returns z s1) schc schd
               = (Returned (Some ErrClosed), [], sink_returns z s1)"
    using Close_accepted_expired[OF w, of z] m d e(1) Close_closed[OF d, of z schc schd]
    by (intro exI[of _ ?s1]) simp
qed

theorem C2_close_again_after_timeout_witness:
  "(\<exists>st. in_sink pushed_full st \<and> isOpen st)
   \<and> Close 0 pushed_full Handoff Handoff
       = (Returned (Some (Join (ErrorString ''failed to close buffer within close timeout'')
                            ErrTimeout)),
          [TimedOut (CloseTimeout (buf pushed_full))], pushed_full)
   \<and> (\<exists>s'. Close 0 (sink_returns 0 pushed_full) Handoff Handoff
              = (Returned None, [Sent, Received], s'))
   \<and> (\<exists>st. in_sink close_stalled st \<and> \<not> isOpen st)
   \<and> Close 0 close_stalled Handoff Handoff
       = (Returned (Some (Join (ErrorString ''failed to close buffer within close timeout'')
                            ErrTimeout)),
          [TimedOut (CloseTimeout (buf close_stalled))], close_stalled)
   \<and> Close 0 (sink_returns 0 close_stalled) Handoff Handoff
       = (Returned (Some ErrClosed), [], sink_returns 0 close_stalled)
   \<and> (\<exists>st. waiting pushed_one st)
   \<and> (\<exists>s1. fst (Close 0 pushed_one Handoff Expire)
              = Returned (Some (Join (ErrorString ''failed to close buffer within close timeout'')
                                  ErrTimeout))
         \<and> s1 = snd (snd (Close 0 pushed_one Handoff Expire))
         \<and> Close 0 (sink_returns 0 s1) Handoff Handoff
             = (Returned (Some ErrClosed), [], sink_returns 0 s1))"
proof -
  from pushed_full_writing obtain st where "writing pushed_full st" by blast
  then have wr: "in_sink pushed_full st" "isOpen st" by (simp_all add: writing_in_sink)
  let ?st = "\<lparr>count = 1, items = [1 :: nat, 0], mustFlush = True, ticker = None,
      stopTicker = None, isOpen = False, made = 0, trace = [Write [1]]\<rparr>"
  have cs: "in_sink close_stalled ?st" "\<not> isOpen ?st"
    using close_stalled_in_sink by simp_all
  from pushed_one_waiting obtain st' where wa: "waiting pushed_one st'" by blast
  from C2_close_again_after_timeout [where z = 0 and s = pushed_full and scha = Handoff and schb = Handoff and st = st]
    wr
  have a: "Close 0 pushed_full Handoff Handoff
       = (Returned (Some (Join (ErrorString ''failed to close buffer within close timeout'')
                            ErrTimeout)),
          [TimedOut (CloseTimeout (buf pushed_full))], pushed_full)"
    and b: "\<exists>s'. Close 0 (sink_returns 0 pushed_full) Handoff Handoff
              = (Returned None, [Sent, Received], s')"
    by auto
  from C2_close_again_after_timeout [where z = 0 and s = close_stalled and scha = Handoff and schb = Handoff
      and st = ?st and schc = Handoff and schd = Handoff] cs
  have c: "Close 0 close_stalled Handoff Handoff
       = (Returned (Some (Join (ErrorString ''failed to close buffer within close timeout'')
                            ErrTimeout)),
          [TimedOut (CloseTimeout (buf close_stalled))], close_stalled)"
    and d: "Close 0 (sink_returns 0 close_stalled) Handoff Handoff
       = (Returned (Some ErrClosed), [], sink_returns 0 close_stalled)"
    by auto
  from C2_close_again_after_timeout [where z = 0 and s = pushed_one and st = st' and scha = Handoff and schb = Handoff
      and schc = Handoff and schd = Handoff] wa
  have e: "\<exists>s1. fst (Close 0 pushed_one Handoff Expire)
              = Returned (Some (Join (ErrorString ''failed to close buffer within close timeout'')
                                  ErrTimeout))
         \<and> s1 = snd (snd (Close 0 pushed_one Handoff Expire))
         \<and> Close 0 (sink_returns 0 s1) Handoff Handoff
             = (Returned (Some ErrClosed), [], sink_returns 0 s1)"
    by auto
  from wr cs wa a b c d e show ?thesis by blast
qed

end
